theory Spec2Isabelle
  imports Main "HOL-Library.AList" "HOL-Library.Char_ord" "HOL-Library.List_Lexorder"
begin

section \<open>The value model\<close>

text \<open>
  The codec works on Go values of static type \<^verbatim>\<open>any\<close>. \<^verbatim>\<open>marshalValue\<close> switches on
  the dynamic type: \<^verbatim>\<open>int\<close>, \<^verbatim>\<open>string\<close>, \<^verbatim>\<open>[]any\<close>, \<^verbatim>\<open>map[string]any\<close>, and a
  \<^verbatim>\<open>default\<close> branch for everything else (\<^verbatim>\<open>nil\<close>, \<^verbatim>\<open>[]byte\<close>, floats, ...), which
  is \<open>VOther\<close> here. A Go string is a byte sequence, so it is a \<open>char list\<close>. A Go map
  has no order; it is kept as an association list whose order stands for the (unspecified)
  iteration order of \<^verbatim>\<open>range\<close>, and whose keys are pairwise distinct in every value
  a Go program can build (\<open>unique_keys\<close> below). Go's \<^verbatim>\<open>int\<close> is taken to be 64 bits wide;
  \<open>representable\<close> says that a value fits.
\<close>

datatype val =
    VInt int
  | VStr string
  | VList "val list"
  | VDict "(string \<times> val) list"
  | VOther

text \<open>
  The decoder's error values: \<^verbatim>\<open>io.EOF\<close>, \<^verbatim>\<open>io.ErrUnexpectedEOF\<close>, the two
  \<^verbatim>\<open>fmt.Errorf\<close> messages \<^verbatim>\<open>invalid integer value\<close> and \<^verbatim>\<open>invalid string length\<close>,
  and the error of \<^verbatim>\<open>Seek\<close> to a position before the start; the encoder's
  \<^verbatim>\<open>Unsupported type\<close>. A run-time panic is not an error value: it is \<open>Panic\<close>.
\<close>

datatype error =
    EOF
  | ErrUnexpectedEOF
  | InvalidInteger
  | InvalidStringLength
  | NegativePosition
  | UnsupportedType

datatype abort = Err error | Panic

type_synonym 'a result = "abort + 'a"

text \<open>\<^verbatim>\<open>dict[k]\<close>: the zero value \<^verbatim>\<open>nil\<close> of \<^verbatim>\<open>any\<close> when the key is absent.\<close>

definition dict_index :: "(string \<times> val) list \<Rightarrow> string \<Rightarrow> val" where
  "dict_index dict k = (case map_of dict k of None \<Rightarrow> VOther | Some v \<Rightarrow> v)"

fun supported :: "val \<Rightarrow> bool" where
  "supported (VInt n) = True"
| "supported (VStr str) = True"
| "supported (VList xs) = list_all supported xs"
| "supported (VDict d) = list_all (\<lambda>kv. supported (snd kv)) d"
| "supported VOther = False"

fun unique_keys :: "val \<Rightarrow> bool" where
  "unique_keys (VList xs) = list_all unique_keys xs"
| "unique_keys (VDict d) = (distinct (map fst d) \<and> list_all (\<lambda>kv. unique_keys (snd kv)) d)"
| "unique_keys v = True"

fun representable :: "val \<Rightarrow> bool" where
  "representable (VInt n) = (- (2 ^ 63) \<le> n \<and> n \<le> 2 ^ 63 - 1)"
| "representable (VStr str) = (length str < 2 ^ 63)"
| "representable (VList xs) = list_all representable xs"
| "representable (VDict d) =
     list_all (\<lambda>kv. length (fst kv) < 2 ^ 63 \<and> representable (snd kv)) d"
| "representable VOther = True"

definition well_formed :: "val \<Rightarrow> bool" where
  "well_formed v = (supported v \<and> unique_keys v \<and> representable v)"

section \<open>strconv\<close>

text \<open>
  \<^verbatim>\<open>strconv.Itoa\<close> and \<^verbatim>\<open>strconv.Atoi\<close> belong to Go's standard library. \<^verbatim>\<open>Itoa\<close> prints
  the shortest decimal numeral, with \<^verbatim>\<open>-\<close> for a negative number. \<^verbatim>\<open>Atoi\<close> accepts one
  optional sign \<^verbatim>\<open>+\<close> or \<^verbatim>\<open>-\<close> followed by one or more decimal digits (leading zeros
  allowed) and fails on anything else and on a number outside the range of \<^verbatim>\<open>int\<close>.
\<close>

definition digit_char :: "nat \<Rightarrow> char" where
  "digit_char d = char_of (48 + d)"

fun digits :: "nat \<Rightarrow> string" where
  "digits n = (if n < 10 then [digit_char n] else digits (n div 10) @ [digit_char (n mod 10)])"

declare digits.simps [simp del]

definition Itoa :: "int \<Rightarrow> string" where
  "Itoa n = (if n < 0 then CHR ''-'' # digits (nat (- n)) else digits (nat n))"

definition is_digit :: "char \<Rightarrow> bool" where
  "is_digit c = (48 \<le> (of_char c :: nat) \<and> (of_char c :: nat) \<le> 57)"

definition digit_val :: "char \<Rightarrow> nat" where
  "digit_val c = of_char c - 48"

definition digits_val :: "string \<Rightarrow> nat" where
  "digits_val ds = foldl (\<lambda>n ch. n * 10 + digit_val ch) 0 ds"

definition Atoi :: "string \<Rightarrow> int option" where
  "Atoi str =
     (if str = [] then None
      else let ds = (if hd str = CHR ''-'' \<or> hd str = CHR ''+'' then tl str else str) in
        if ds = [] \<or> \<not> list_all is_digit ds then None
        else let n = (if hd str = CHR ''-'' then - int (digits_val ds) else int (digits_val ds)) in
          if n < - (2 ^ 63) \<or> 2 ^ 63 - 1 < n then None else Some n)"

section \<open>The encoder\<close>

text \<open>
  The \<^verbatim>\<open>bytes.Buffer\<close> is passed through: every function takes the bytes written so far
  and returns them extended. \<^verbatim>\<open>marshalValue\<close> returns an error; \<^verbatim>\<open>marshalList\<close> and
  \<^verbatim>\<open>marshalDict\<close> return nothing. Their loops return early, without writing the closing
  \<^verbatim>\<open>e\<close>, when \<^verbatim>\<open>marshalValue\<close> reports an error for an element; the flag of
  \<open>marshalList_loop\<close> and \<open>marshalDict_loop\<close> is \<open>True\<close> for that early return.
  \<^verbatim>\<open>sort.Strings\<close> orders the keys by Go's string comparison, which is byte-wise
  lexicographic: the order of \<open>char list\<close> here.
\<close>

definition marshalInt :: "int \<Rightarrow> string \<Rightarrow> string" where
  "marshalInt v b = b @ ''i'' @ Itoa v @ ''e''"

definition marshalString :: "string \<Rightarrow> string \<Rightarrow> string" where
  "marshalString str b = b @ Itoa (int (length str)) @ '':'' @ str"

lemma size_dict_index [termination_simp]:
  "size (dict_index dict k) \<le> size_list (size_prod (\<lambda>x. 0) size) dict"
proof (induction dict)
  case Nil
  show ?case by (simp add: dict_index_def)
next
  case (Cons kv dict)
  then show ?case by (cases kv) (auto simp: dict_index_def split: option.splits)
qed

function marshalValue :: "val \<Rightarrow> string \<Rightarrow> string \<times> error option"
  and marshalList :: "val list \<Rightarrow> string \<Rightarrow> string"
  and marshalList_loop :: "val list \<Rightarrow> string \<Rightarrow> string \<times> bool"
  and marshalDict :: "(string \<times> val) list \<Rightarrow> string \<Rightarrow> string"
  and marshalDict_loop :: "(string \<times> val) list \<Rightarrow> string list \<Rightarrow> string \<Rightarrow> string \<times> bool"
where
  "marshalValue (VInt n) b = (marshalInt n b, None)"
| "marshalValue (VStr str) b = (marshalString str b, None)"
| "marshalValue (VList xs) b = (marshalList xs b, None)"
| "marshalValue (VDict d) b = (marshalDict d b, None)"
| "marshalValue VOther b = (b, Some UnsupportedType)"
| "marshalList list b =
     (case marshalList_loop list (b @ ''l'') of
        (b1, True) \<Rightarrow> b1
      | (b1, False) \<Rightarrow> b1 @ ''e'')"
| "marshalList_loop [] b = (b, False)"
| "marshalList_loop (item # items) b =
     (case marshalValue item b of
        (b1, Some err) \<Rightarrow> (b1, True)
      | (b1, None) \<Rightarrow> marshalList_loop items b1)"
| "marshalDict dict buf =
     (case marshalDict_loop dict (sort (map fst dict)) (buf @ ''d'') of
        (b1, True) \<Rightarrow> b1
      | (b1, False) \<Rightarrow> b1 @ ''e'')"
| "marshalDict_loop dict [] buf = (buf, False)"
| "marshalDict_loop dict (k # keys) buf =
     (case marshalValue (dict_index dict k) (marshalString k buf) of
        (b1, Some err) \<Rightarrow> (b1, True)
      | (b1, None) \<Rightarrow> marshalDict_loop dict keys b1)"
  by pat_completeness auto
termination
  by (relation "inv_image (less_than <*lex*> less_than <*lex*> less_than)
        (\<lambda>x. case x of
           Inl (Inl (v, b)) \<Rightarrow> (size v, 3, 0)
         | Inl (Inr (xs, b)) \<Rightarrow> (Suc (size_list size xs), 2, 0)
         | Inr (Inl (xs, b)) \<Rightarrow> (Suc (size_list size xs), 1, 0)
         | Inr (Inr (Inl (d, b))) \<Rightarrow> (Suc (size_list (size_prod (\<lambda>x. 0) size) d), 2, 0)
         | Inr (Inr (Inr (d, ks, b))) \<Rightarrow>
             (Suc (size_list (size_prod (\<lambda>x. 0) size) d), 1, length ks))")
     (auto simp: le_imp_less_Suc size_dict_index)

definition Marshal :: "val \<Rightarrow> string result" where
  "Marshal v =
     (case marshalValue v [] of
        (b, Some err) \<Rightarrow> Inl (Err err)
      | (b, None) \<Rightarrow> Inr b)"

text \<open>What \<^verbatim>\<open>Marshal\<close> writes for a value, and for one binding of a dictionary.\<close>

definition encoding :: "val \<Rightarrow> string" where
  "encoding v = fst (marshalValue v [])"

definition entry_bytes :: "string \<times> val \<Rightarrow> string" where
  "entry_bytes kv = encoding (VStr (fst kv)) @ encoding (snd kv)"

section \<open>The decoder\<close>

text \<open>
  \<^verbatim>\<open>Unmarshal\<close> reads from a \<^verbatim>\<open>bytes.Reader\<close>: the slice \<^verbatim>\<open>s\<close> and the read index
  \<^verbatim>\<open>i\<close>. Every function takes the reader and returns it advanced, or aborts: each
  \<^verbatim>\<open>if err != nil { return ..., err }\<close> of the source is an \<open>Inl\<close> branch.
  \<^verbatim>\<open>readByte\<close> is \<^verbatim>\<open>Read\<close> into a one-byte array: \<^verbatim>\<open>io.EOF\<close> at the end of the slice.
  \<^verbatim>\<open>unreadByte\<close> ignores its byte argument and seeks one position back; the reader made
  by \<^verbatim>\<open>bytes.NewReader\<close> is always an \<^verbatim>\<open>io.Seeker\<close>.
\<close>

record reader =
  rd_s :: string
  rd_i :: nat

definition readByte :: "reader \<Rightarrow> (char \<times> reader) result" where
  "readByte r =
     (if length (rd_s r) \<le> rd_i r then Inl (Err EOF)
      else Inr (rd_s r ! rd_i r, r\<lparr>rd_i := rd_i r + 1\<rparr>))"

definition unreadByte :: "reader \<Rightarrow> char \<Rightarrow> reader result" where
  "unreadByte r b =
     (if rd_i r < 1 then Inl (Err NegativePosition)
      else Inr (r\<lparr>rd_i := rd_i r - 1\<rparr>))"

text \<open>The loop of \<^verbatim>\<open>readUntilColon\<close>; the second argument is its \<^verbatim>\<open>buf\<close>, empty at the start.\<close>

function readUntilColon_loop :: "reader \<Rightarrow> string \<Rightarrow> (string \<times> reader) result" where
  "readUntilColon_loop r buf =
     (case readByte r of
        Inl e \<Rightarrow> Inl e
      | Inr (ch, r1) \<Rightarrow>
          if ch = CHR '':'' then Inr (buf, r1) else readUntilColon_loop r1 (buf @ [ch]))"
  by pat_completeness auto
termination
  by (relation "measure (\<lambda>(r, buf). length (rd_s r) - rd_i r)")
     (auto simp: readByte_def split: if_splits)

declare readUntilColon_loop.simps [simp del]

definition readUntilColon :: "reader \<Rightarrow> (string \<times> reader) result" where
  "readUntilColon r = readUntilColon_loop r []"

text \<open>The loop of \<^verbatim>\<open>unmarshalInt\<close>, up to the byte \<^verbatim>\<open>e\<close>, and the conversion after it.\<close>

function unmarshalInt_loop :: "reader \<Rightarrow> string \<Rightarrow> (string \<times> reader) result" where
  "unmarshalInt_loop r buf =
     (case readByte r of
        Inl e \<Rightarrow> Inl e
      | Inr (ch, r1) \<Rightarrow>
          if ch = CHR ''e'' then Inr (buf, r1) else unmarshalInt_loop r1 (buf @ [ch]))"
  by pat_completeness auto
termination
  by (relation "measure (\<lambda>(r, buf). length (rd_s r) - rd_i r)")
     (auto simp: readByte_def split: if_splits)

declare unmarshalInt_loop.simps [simp del]

definition unmarshalInt :: "reader \<Rightarrow> (int \<times> reader) result" where
  "unmarshalInt r =
     (case unmarshalInt_loop r [] of
        Inl e \<Rightarrow> Inl e
      | Inr (buf, r1) \<Rightarrow>
          (case Atoi buf of
             None \<Rightarrow> Inl (Err InvalidInteger)
           | Some v \<Rightarrow> Inr (v, r1)))"

text \<open>
  \<^verbatim>\<open>io.ReadFull\<close> into a buffer of \<open>n\<close> bytes: nothing is read for \<open>n = 0\<close>;
  \<^verbatim>\<open>io.EOF\<close> when no byte is left, \<^verbatim>\<open>io.ErrUnexpectedEOF\<close> when some but fewer than
  \<open>n\<close> are.
\<close>

definition ReadFull :: "reader \<Rightarrow> nat \<Rightarrow> (string \<times> reader) result" where
  "ReadFull r n =
     (if n = 0 then Inr ([], r)
      else if length (rd_s r) \<le> rd_i r then Inl (Err EOF)
      else if length (rd_s r) - rd_i r < n then Inl (Err ErrUnexpectedEOF)
      else Inr (take n (drop (rd_i r) (rd_s r)), r\<lparr>rd_i := rd_i r + n\<rparr>))"

text \<open>
  \<^verbatim>\<open>make([]byte, length)\<close> panics at run time for a negative length. For a length that is
  not negative the allocation is taken to succeed: running out of memory is outside this
  model.
\<close>

definition unmarshalString :: "reader \<Rightarrow> (string \<times> reader) result" where
  "unmarshalString r =
     (case readUntilColon r of
        Inl e \<Rightarrow> Inl e
      | Inr (lengthStr, r1) \<Rightarrow>
          (case Atoi lengthStr of
             None \<Rightarrow> Inl (Err InvalidStringLength)
           | Some len \<Rightarrow>
               if len < 0 then Inl Panic
               else ReadFull r1 (nat len)))"

text \<open>
  The second argument of \<open>unmarshalList\<close> and \<open>unmarshalDict\<close> is the loop variable
  (\<^verbatim>\<open>list\<close>, \<^verbatim>\<open>dict\<close>), which the source starts empty. \<^verbatim>\<open>dict[key] = value\<close> replaces
  the binding of a key that is already there.
\<close>

function unmarshalValue :: "reader \<Rightarrow> (val \<times> reader) result"
  and unmarshalList :: "reader \<Rightarrow> val list \<Rightarrow> (val list \<times> reader) result"
  and unmarshalDict ::
    "reader \<Rightarrow> (string \<times> val) list \<Rightarrow> ((string \<times> val) list \<times> reader) result"
where
  "unmarshalValue r =
     (case readByte r of
        Inl e \<Rightarrow> Inl e
      | Inr (ch, r1) \<Rightarrow>
          if ch = CHR ''i'' then
            (case unmarshalInt r1 of
               Inl e \<Rightarrow> Inl e
             | Inr (n, r2) \<Rightarrow> Inr (VInt n, r2))
          else if ch = CHR ''l'' then
            (case unmarshalList r1 [] of
               Inl e \<Rightarrow> Inl e
             | Inr (xs, r2) \<Rightarrow> Inr (VList xs, r2))
          else if ch = CHR ''d'' then
            (case unmarshalDict r1 [] of
               Inl e \<Rightarrow> Inl e
             | Inr (d, r2) \<Rightarrow> Inr (VDict d, r2))
          else
            (case unreadByte r1 ch of
               Inl e \<Rightarrow> Inl e
             | Inr r2 \<Rightarrow>
                 (case unmarshalString r2 of
                    Inl e \<Rightarrow> Inl e
                  | Inr (str, r3) \<Rightarrow> Inr (VStr str, r3))))"
| "unmarshalList r list =
     (case readByte r of
        Inl e \<Rightarrow> Inl e
      | Inr (ch, r1) \<Rightarrow>
          if ch = CHR ''e'' then Inr (list, r1)
          else
            (case unreadByte r1 ch of
               Inl e \<Rightarrow> Inl e
             | Inr r2 \<Rightarrow>
                 (case unmarshalValue r2 of
                    Inl e \<Rightarrow> Inl e
                  | Inr (v, r3) \<Rightarrow> unmarshalList r3 (list @ [v]))))"
| "unmarshalDict r dict =
     (case readByte r of
        Inl e \<Rightarrow> Inl e
      | Inr (ch, r1) \<Rightarrow>
          if ch = CHR ''e'' then Inr (dict, r1)
          else
            (case unreadByte r1 ch of
               Inl e \<Rightarrow> Inl e
             | Inr r2 \<Rightarrow>
                 (case unmarshalString r2 of
                    Inl e \<Rightarrow> Inl e
                  | Inr (key, r3) \<Rightarrow>
                      (case unmarshalValue r3 of
                         Inl e \<Rightarrow> Inl e
                       | Inr (v, r4) \<Rightarrow> unmarshalDict r4 (AList.update key v dict)))))"
  by pat_completeness auto

definition Unmarshal :: "string \<Rightarrow> val result" where
  "Unmarshal data =
     (case unmarshalValue \<lparr>rd_s = data, rd_i = 0\<rparr> of
        Inl e \<Rightarrow> Inl e
      | Inr (v, r) \<Rightarrow> Inr v)"

subsection \<open>Termination of the decoder\<close>

text \<open>
  The loops of \<open>unmarshalList\<close> and \<open>unmarshalDict\<close> go on from the reader that the
  nested call returns, so their termination needs that a successful call has moved the
  reader forward within the same slice.
\<close>

definition advanced :: "reader \<Rightarrow> reader \<Rightarrow> bool" where
  "advanced r r' = (rd_s r' = rd_s r \<and> rd_i r < rd_i r' \<and> rd_i r' \<le> length (rd_s r))"

lemma readByte_Inr:
  "readByte r = Inr (ch, r1) \<Longrightarrow>
     rd_s r1 = rd_s r \<and> rd_i r1 = rd_i r + 1 \<and> rd_i r < length (rd_s r) \<and> ch = rd_s r ! rd_i r"
  by (auto simp: readByte_def split: if_splits)

lemma unreadByte_Inr:
  "unreadByte r1 ch = Inr r2 \<Longrightarrow> rd_s r2 = rd_s r1 \<and> rd_i r2 = rd_i r1 - 1 \<and> 0 < rd_i r1"
  by (auto simp: unreadByte_def split: if_splits)

lemma readUntilColon_loop_advanced:
  "readUntilColon_loop r buf = Inr (str, r') \<Longrightarrow> advanced r r'"
proof (induction r buf rule: readUntilColon_loop.induct)
  case (1 r buf)
  from "1.prems" obtain ch r1 where rb: "readByte r = Inr (ch, r1)"
    by (subst (asm) readUntilColon_loop.simps) (auto split: sum.splits)
  show ?case
  proof (cases "ch = CHR '':''")
    case True
    with "1.prems" rb have "r' = r1" by (subst (asm) readUntilColon_loop.simps) simp
    with readByte_Inr[OF rb] show ?thesis by (simp add: advanced_def)
  next
    case False
    with "1.prems" rb have "readUntilColon_loop r1 (buf @ [ch]) = Inr (str, r')"
      by (subst (asm) readUntilColon_loop.simps) simp
    from "1.IH"[OF rb refl False this] readByte_Inr[OF rb] show ?thesis
      by (simp add: advanced_def)
  qed
qed

lemma unmarshalInt_loop_advanced:
  "unmarshalInt_loop r buf = Inr (str, r') \<Longrightarrow> advanced r r'"
proof (induction r buf rule: unmarshalInt_loop.induct)
  case (1 r buf)
  from "1.prems" obtain ch r1 where rb: "readByte r = Inr (ch, r1)"
    by (subst (asm) unmarshalInt_loop.simps) (auto split: sum.splits)
  show ?case
  proof (cases "ch = CHR ''e''")
    case True
    with "1.prems" rb have "r' = r1" by (subst (asm) unmarshalInt_loop.simps) simp
    with readByte_Inr[OF rb] show ?thesis by (simp add: advanced_def)
  next
    case False
    with "1.prems" rb have "unmarshalInt_loop r1 (buf @ [ch]) = Inr (str, r')"
      by (subst (asm) unmarshalInt_loop.simps) simp
    from "1.IH"[OF rb refl False this] readByte_Inr[OF rb] show ?thesis
      by (simp add: advanced_def)
  qed
qed

lemma unmarshalInt_advanced: "unmarshalInt r = Inr (n, r') \<Longrightarrow> advanced r r'"
  by (auto simp: unmarshalInt_def split: sum.splits option.splits dest: unmarshalInt_loop_advanced)

lemma ReadFull_Inr:
  "ReadFull r n = Inr (str, r') \<Longrightarrow> rd_s r' = rd_s r \<and> rd_i r' = rd_i r + n \<and> (n = 0 \<or> rd_i r + n \<le> length (rd_s r))"
  by (auto simp: ReadFull_def split: if_splits)

lemma unmarshalString_advanced: "unmarshalString r = Inr (str, r') \<Longrightarrow> advanced r r'"
  by (auto simp: unmarshalString_def readUntilColon_def advanced_def split: sum.splits option.splits if_splits
      dest!: readUntilColon_loop_advanced ReadFull_Inr)

lemma unmarshal_dom_advanced:
  "unmarshalValue_unmarshalList_unmarshalDict_dom (Inl r) \<Longrightarrow>
      unmarshalValue r = Inr (v, r') \<Longrightarrow> advanced r r'"
  "unmarshalValue_unmarshalList_unmarshalDict_dom (Inr (Inl (rl, list))) \<Longrightarrow>
      unmarshalList rl list = Inr (xs, rl') \<Longrightarrow> advanced rl rl'"
  "unmarshalValue_unmarshalList_unmarshalDict_dom (Inr (Inr (rd, dict))) \<Longrightarrow>
      unmarshalDict rd dict = Inr (d, rd') \<Longrightarrow> advanced rd rd'"
proof (induction r and rl list and rd dict arbitrary: v r' and xs rl' and d rd'
    rule: unmarshalValue_unmarshalList_unmarshalDict.pinduct)
  case (1 r)
  from "1.prems" "1.hyps" obtain ch r1 where rb: "readByte r = Inr (ch, r1)"
    by (auto simp: unmarshalValue.psimps split: sum.splits)
  note rbI = readByte_Inr[OF rb]
  show ?case
  proof -
    consider (i) "ch = CHR ''i''" | (l) "ch \<noteq> CHR ''i''" "ch = CHR ''l''"
      | (d) "ch \<noteq> CHR ''i''" "ch \<noteq> CHR ''l''" "ch = CHR ''d''"
      | (s) "ch \<noteq> CHR ''i''" "ch \<noteq> CHR ''l''" "ch \<noteq> CHR ''d''" by blast
    then show ?thesis
    proof cases
      case i
      with "1.prems" "1.hyps" rb obtain n where "unmarshalInt r1 = Inr (n, r')"
        by (auto simp: unmarshalValue.psimps split: sum.splits)
      from unmarshalInt_advanced[OF this] rbI show ?thesis by (simp add: advanced_def)
    next
      case l
      with "1.prems" "1.hyps" rb obtain ys where "unmarshalList r1 [] = Inr (ys, r')"
        by (auto simp: unmarshalValue.psimps split: sum.splits)
      from "1.IH"(1)[OF rb refl l this] rbI show ?thesis by (simp add: advanced_def)
    next
      case d
      with "1.prems" "1.hyps" rb obtain ys where "unmarshalDict r1 [] = Inr (ys, r')"
        by (auto simp: unmarshalValue.psimps split: sum.splits)
      from "1.IH"(2)[OF rb refl d this] rbI show ?thesis by (simp add: advanced_def)
    next
      case s
      with "1.prems" "1.hyps" rb obtain r2 str where
        ub: "unreadByte r1 ch = Inr r2" and us: "unmarshalString r2 = Inr (str, r')"
        by (auto simp: unmarshalValue.psimps split: sum.splits)
      from unmarshalString_advanced[OF us] unreadByte_Inr[OF ub] rbI show ?thesis
        by (simp add: advanced_def)
    qed
  qed
next
  case (2 r list)
  from "2.prems" "2.hyps" obtain ch r1 where rb: "readByte r = Inr (ch, r1)"
    by (auto simp: unmarshalList.psimps split: sum.splits)
  note rbI = readByte_Inr[OF rb]
  show ?case
  proof (cases "ch = CHR ''e''")
    case True
    with "2.prems" "2.hyps" rb have "rl' = r1"
      by (auto simp: unmarshalList.psimps split: sum.splits)
    with rbI show ?thesis by (simp add: advanced_def)
  next
    case False
    with "2.prems" "2.hyps" rb obtain r2 v r3 where
      ub: "unreadByte r1 ch = Inr r2" and uv: "unmarshalValue r2 = Inr (v, r3)"
      and ul: "unmarshalList r3 (list @ [v]) = Inr (xs, rl')"
      by (auto simp: unmarshalList.psimps split: sum.splits)
    from "2.IH"(2)[OF rb refl False ub uv refl ul] "2.IH"(1)[OF rb refl False ub uv]
      unreadByte_Inr[OF ub] rbI
    show ?thesis by (simp add: advanced_def)
  qed
next
  case (3 r dict)
  from "3.prems" "3.hyps" obtain ch r1 where rb: "readByte r = Inr (ch, r1)"
    by (auto simp: unmarshalDict.psimps split: sum.splits)
  note rbI = readByte_Inr[OF rb]
  show ?case
  proof (cases "ch = CHR ''e''")
    case True
    with "3.prems" "3.hyps" rb have "rd' = r1"
      by (auto simp: unmarshalDict.psimps split: sum.splits)
    with rbI show ?thesis by (simp add: advanced_def)
  next
    case False
    with "3.prems" "3.hyps" rb obtain r2 key r3 v r4 where
      ub: "unreadByte r1 ch = Inr r2" and us: "unmarshalString r2 = Inr (key, r3)"
      and uv: "unmarshalValue r3 = Inr (v, r4)"
      and ud: "unmarshalDict r4 (AList.update key v dict) = Inr (d, rd')"
      by (auto simp: unmarshalDict.psimps split: sum.splits)
    from "3.IH"(2)[OF rb refl False ub us refl uv refl ud] "3.IH"(1)[OF rb refl False ub us refl uv]
      unmarshalString_advanced[OF us] unreadByte_Inr[OF ub] rbI
    show ?thesis by (simp add: advanced_def)
  qed
qed

termination unmarshalValue
proof (relation "measure (\<lambda>x. case x of Inl r \<Rightarrow> 2 * (length (rd_s r) - rd_i r) + 1
      | Inr (Inl (r, l)) \<Rightarrow> 2 * (length (rd_s r) - rd_i r) + 2
      | Inr (Inr (r, d)) \<Rightarrow> 2 * (length (rd_s r) - rd_i r) + 2)", goal_cases)
  case 1 show ?case by simp
next
  case (2 r b x y)
  then show ?case using readByte_Inr[of r x y] by auto
next
  case (3 r b x y)
  then show ?case using readByte_Inr[of r x y] by auto
next
  case (4 r list b x y ba)
  then show ?case using readByte_Inr[of r x y] unreadByte_Inr[of y x ba] by auto
next
  case (5 r list b x y ba bb xa ya)
  then show ?case using readByte_Inr[of r x y] unreadByte_Inr[of y x ba]
      unmarshal_dom_advanced(1)[of ba xa ya]
    by (auto simp: advanced_def)
next
  case (6 r dict b x y ba bb xa ya)
  then show ?case using readByte_Inr[of r x y] unreadByte_Inr[of y x ba]
      unmarshalString_advanced[of ba xa ya]
    by (auto simp: advanced_def)
next
  case (7 r dict b x y ba bb xa ya bc xb yb)
  then show ?case using readByte_Inr[of r x y] unreadByte_Inr[of y x ba]
      unmarshalString_advanced[of ba xa ya]
      unmarshal_dom_advanced(1)[of ya xb yb]
    by (auto simp: advanced_def)
qed


declare unmarshalValue.simps [simp del] unmarshalList.simps [simp del] unmarshalDict.simps [simp del]

subsection \<open>Positions, kinds of errors, nested input\<close>

text \<open>
  The part of the slice that is still unread, and the reader moved forward by \<open>n\<close> bytes.
\<close>

definition rest_of :: "reader \<Rightarrow> string" where
  "rest_of r = drop (rd_i r) (rd_s r)"

definition skip :: "reader \<Rightarrow> nat \<Rightarrow> reader" where
  "skip r n = r\<lparr>rd_i := rd_i r + n\<rparr>"





section \<open>Equality of values up to the order of dictionaries\<close>

text \<open>
  Two values are equal up to iteration order when they agree everywhere except for the
  order in which their dictionaries list their bindings: two dictionaries have the same
  keys and, under each key, values that are again equal in this sense. \<open>canon\<close> lists
  every dictionary by ascending key.
\<close>

lemma size_dict_index_less [termination_simp]:
  "size (dict_index dict k) < Suc (size_list (\<lambda>x. Suc (size (snd x))) dict)"
proof (induction dict)
  case Nil
  show ?case by (simp add: dict_index_def)
next
  case (Cons kv dict)
  then show ?case by (cases kv) (auto simp: dict_index_def split: option.splits)
qed

fun val_eq :: "val \<Rightarrow> val \<Rightarrow> bool" where
  "val_eq (VInt a) (VInt b) = (a = b)"
| "val_eq (VStr a) (VStr b) = (a = b)"
| "val_eq (VList xs) (VList ys) = list_all2 val_eq xs ys"
| "val_eq (VDict d) (VDict e) =
     (set (map fst d) = set (map fst e) \<and>
      list_all (\<lambda>k. val_eq (dict_index d k) (dict_index e k)) (map fst d))"
| "val_eq VOther VOther = True"
| "val_eq v w = False"

fun canon :: "val \<Rightarrow> val" where
  "canon (VList xs) = VList (map canon xs)"
| "canon (VDict d) = VDict (map (\<lambda>k. (k, canon (dict_index d k))) (sort (map fst d)))"
| "canon v = v"

section \<open>The inputs the decoder accepts\<close>

text \<open>
  \<open>decodes bs v\<close>: the bytes \<open>bs\<close> are one complete encoded value, and \<open>v\<close> is what
  it stands for. An integer is \<^verbatim>\<open>i\<close>, a numeral that \<^verbatim>\<open>Atoi\<close> accepts, \<^verbatim>\<open>e\<close>; a string
  is a length that \<^verbatim>\<open>Atoi\<close> accepts, a colon and that many bytes; a list is \<^verbatim>\<open>l\<close>,
  encoded values, \<^verbatim>\<open>e\<close>; a dictionary is \<^verbatim>\<open>d\<close>, pairs of an encoded string and an
  encoded value, \<^verbatim>\<open>e\<close>. The keys of a dictionary may come in any order and may repeat;
  its value is built by storing the bindings from left to right.
\<close>

inductive string_token :: "string \<Rightarrow> string \<Rightarrow> bool" where
  string_tokenI: "Atoi ls = Some (int (length str)) \<Longrightarrow> CHR '':'' \<notin> set ls \<Longrightarrow>
     string_token (ls @ '':'' @ str) str"

definition store :: "(string \<times> val) list \<Rightarrow> (string \<times> val) list \<Rightarrow> (string \<times> val) list" where
  "store dict kvs = foldl (\<lambda>d kv. AList.update (fst kv) (snd kv) d) dict kvs"

inductive decodes :: "string \<Rightarrow> val \<Rightarrow> bool"
  and decodes_list :: "string \<Rightarrow> val list \<Rightarrow> bool"
  and decodes_entries :: "string \<Rightarrow> (string \<times> val) list \<Rightarrow> bool"
where
  dec_int: "Atoi ds = Some n \<Longrightarrow> CHR ''e'' \<notin> set ds \<Longrightarrow>
     decodes (''i'' @ ds @ ''e'') (VInt n)"
| dec_str: "string_token bs str \<Longrightarrow> decodes bs (VStr str)"
| dec_list: "decodes_list bs vs \<Longrightarrow> decodes (''l'' @ bs @ ''e'') (VList vs)"
| dec_dict: "decodes_entries bs kvs \<Longrightarrow> decodes (''d'' @ bs @ ''e'') (VDict (store [] kvs))"
| dec_nil: "decodes_list [] []"
| dec_cons: "decodes b v \<Longrightarrow> decodes_list bs vs \<Longrightarrow> decodes_list (b @ bs) (v # vs)"
| ent_nil: "decodes_entries [] []"
| ent_cons: "string_token kb k \<Longrightarrow> decodes vb v \<Longrightarrow> decodes_entries bs kvs \<Longrightarrow>
     decodes_entries (kb @ vb @ bs) ((k, v) # kvs)"

section \<open>Canonical encodings\<close>

text \<open>
  The grammar of the specification, with its lexical rules: a digit run has no leading
  zero unless it is exactly \<^verbatim>\<open>0\<close>, there is no negative zero, a string's length is
  such a digit run without sign, and the keys of a dictionary are strictly ascending.
  An integer lies in the 64-bit range of the data model, and so does the length of a
  string. \<open>canonical bs v\<close>: the bytes \<open>bs\<close> are canonical, and stand for \<open>v\<close>.
\<close>

definition canonical_digits :: "string \<Rightarrow> bool" where
  "canonical_digits ds = (ds \<noteq> [] \<and> list_all is_digit ds \<and> (hd ds = CHR ''0'' \<longrightarrow> ds = ''0''))"

inductive canonical_integer :: "string \<Rightarrow> int \<Rightarrow> bool" where
  can_nonneg: "canonical_digits ds \<Longrightarrow> digits_val ds < 2 ^ 63 \<Longrightarrow>
     canonical_integer ds (int (digits_val ds))"
| can_neg: "canonical_digits ds \<Longrightarrow> ds \<noteq> ''0'' \<Longrightarrow> digits_val ds \<le> 2 ^ 63 \<Longrightarrow>
     canonical_integer (''-'' @ ds) (- int (digits_val ds))"

inductive canonical_string :: "string \<Rightarrow> string \<Rightarrow> bool" where
  canonical_stringI: "canonical_digits ls \<Longrightarrow> digits_val ls = length str \<Longrightarrow> length str < 2 ^ 63 \<Longrightarrow>
     canonical_string (ls @ '':'' @ str) str"

inductive canonical :: "string \<Rightarrow> val \<Rightarrow> bool"
  and canonical_list :: "string \<Rightarrow> val list \<Rightarrow> bool"
  and canonical_entries :: "string \<Rightarrow> (string \<times> val) list \<Rightarrow> bool"
where
  can_int: "canonical_integer ds n \<Longrightarrow> canonical (''i'' @ ds @ ''e'') (VInt n)"
| can_str: "canonical_string bs str \<Longrightarrow> canonical bs (VStr str)"
| can_list: "canonical_list bs vs \<Longrightarrow> canonical (''l'' @ bs @ ''e'') (VList vs)"
| can_dict: "canonical_entries bs kvs \<Longrightarrow> canonical (''d'' @ bs @ ''e'') (VDict kvs)"
| can_nil: "canonical_list [] []"
| can_cons: "canonical b v \<Longrightarrow> canonical_list bs vs \<Longrightarrow> canonical_list (b @ bs) (v # vs)"
| can_ent_nil: "canonical_entries [] []"
| can_ent_cons: "canonical_string kb k \<Longrightarrow> canonical vb v \<Longrightarrow> canonical_entries bs kvs \<Longrightarrow>
     list_all (\<lambda>k'. k < k') (map fst kvs) \<Longrightarrow>
     canonical_entries (kb @ vb @ bs) ((k, v) # kvs)"

section \<open>Numerals\<close>

lemma is_digit_digit_char: "d < 10 \<Longrightarrow> is_digit (digit_char d)"
  by (simp add: is_digit_def digit_char_def)

lemma digit_val_digit_char: "d < 10 \<Longrightarrow> digit_val (digit_char d) = d"
  by (simp add: digit_val_def digit_char_def)

lemma digit_char_digit_val: "is_digit c \<Longrightarrow> digit_char (digit_val c) = c"
  by (simp add: is_digit_def digit_val_def digit_char_def)

lemma digit_val_less: "is_digit c \<Longrightarrow> digit_val c < 10"
  by (auto simp: is_digit_def digit_val_def)

lemma is_digit_not_special:
  "is_digit c \<Longrightarrow> c \<noteq> CHR ''-'' \<and> c \<noteq> CHR ''+'' \<and> c \<noteq> CHR '':'' \<and> c \<noteq> CHR ''e''
     \<and> c \<noteq> CHR ''i'' \<and> c \<noteq> CHR ''l'' \<and> c \<noteq> CHR ''d''"
  by (auto simp: is_digit_def)

lemma char_of_48: "char_of (48::nat) = CHR ''0''"
proof -
  have "char_of (of_char (CHR ''0'') :: nat) = CHR ''0''" by (rule char_of_char)
  then show ?thesis by simp
qed

lemma digit_val_zero: "is_digit c \<Longrightarrow> digit_val c = 0 \<longleftrightarrow> c = CHR ''0''"
  using digit_char_digit_val[of c] by (auto simp: digit_val_def digit_char_def char_of_48)

lemma digits_val_snoc: "digits_val (ds @ [c]) = digits_val ds * 10 + digit_val c"
  by (simp add: digits_val_def)

lemma digits_not_Nil: "digits n \<noteq> []"
  by (subst digits.simps) simp

lemma digits_all_digit: "list_all is_digit (digits n)"
proof (induction n rule: digits.induct)
  case (1 n)
  then show ?case by (subst digits.simps) (simp add: is_digit_digit_char)
qed

lemma digits_val_digits: "digits_val (digits n) = n"
proof (induction n rule: digits.induct)
  case (1 n)
  then show ?case
    by (subst digits.simps) (simp add: digits_val_snoc digit_val_digit_char, simp add: digits_val_def digit_val_digit_char)
qed

lemma digits_val_pos:
  "ds \<noteq> [] \<Longrightarrow> list_all is_digit ds \<Longrightarrow> hd ds \<noteq> CHR ''0'' \<Longrightarrow> 0 < digits_val ds"
proof (induction ds rule: rev_induct)
  case Nil
  then show ?case by simp
next
  case (snoc c ds)
  show ?case
  proof (cases "ds = []")
    case True
    with snoc.prems show ?thesis
      using digit_val_zero[of c] by (simp add: digits_val_def)
  next
    case False
    with snoc show ?thesis by (simp add: digits_val_snoc)
  qed
qed

lemma digits_digits_val:
  "canonical_digits ds \<Longrightarrow> digits (digits_val ds) = ds"
proof (induction ds rule: rev_induct)
  case Nil
  then show ?case by (simp add: canonical_digits_def)
next
  case (snoc c ds)
  from snoc.prems have c: "is_digit c" and all: "list_all is_digit ds"
    by (simp_all add: canonical_digits_def)
  show ?case
  proof (cases "ds = []")
    case True
    with c show ?thesis
      using digit_val_less[of c] digit_char_digit_val[of c]
      by (subst digits.simps) (simp add: digits_val_def)
  next
    case False
    with snoc.prems have hd: "hd ds \<noteq> CHR ''0''"
      by (auto simp: canonical_digits_def)
    with False all have cd: "canonical_digits ds" by (simp add: canonical_digits_def)
    from digits_val_pos[OF False all hd] have pos: "0 < digits_val ds" .
    have "digits (digits_val ds * 10 + digit_val c) = digits (digits_val ds) @ [digit_char (digit_val c)]"
      using pos digit_val_less[OF c] by (subst digits.simps) simp
    with snoc.IH[OF cd] digit_char_digit_val[OF c] show ?thesis
      by (simp add: digits_val_snoc)
  qed
qed

lemma Atoi_digits:
  "ds \<noteq> [] \<Longrightarrow> list_all is_digit ds \<Longrightarrow> digits_val ds < 2 ^ 63 \<Longrightarrow>
     Atoi ds = Some (int (digits_val ds))"
  using is_digit_not_special[of "hd ds"]
  by (cases ds) (auto simp: Atoi_def Let_def)

lemma Atoi_minus_digits:
  "ds \<noteq> [] \<Longrightarrow> list_all is_digit ds \<Longrightarrow> digits_val ds \<le> 2 ^ 63 \<Longrightarrow>
     Atoi (CHR ''-'' # ds) = Some (- int (digits_val ds))"
  by (auto simp: Atoi_def Let_def)

lemma Atoi_Itoa:
  assumes "- (2 ^ 63) \<le> n" "n \<le> 2 ^ 63 - 1"
  shows "Atoi (Itoa n) = Some n"
proof (cases "n < 0")
  case True
  with assms have "digits_val (digits (nat (- n))) \<le> 2 ^ 63"
    by (simp add: digits_val_digits nat_le_iff)
  from Atoi_minus_digits[OF digits_not_Nil digits_all_digit this] True show ?thesis
    by (simp add: Itoa_def digits_val_digits)
next
  case False
  with assms have "digits_val (digits (nat n)) < 2 ^ 63"
    by (simp add: digits_val_digits nat_less_iff)
  from Atoi_digits[OF digits_not_Nil digits_all_digit this] False show ?thesis
    by (simp add: Itoa_def digits_val_digits)
qed

lemma list_all_digit_no_special:
  "list_all is_digit ds \<Longrightarrow> CHR '':'' \<notin> set ds \<and> CHR ''e'' \<notin> set ds"
  using is_digit_not_special by (auto simp: list_all_iff)

lemma Itoa_no_special: "CHR '':'' \<notin> set (Itoa n) \<and> CHR ''e'' \<notin> set (Itoa n)"
  using list_all_digit_no_special[OF digits_all_digit] by (simp add: Itoa_def)

lemma Atoi_Some_hd:
  "Atoi ds = Some n \<Longrightarrow>
     ds \<noteq> [] \<and> hd ds \<noteq> CHR ''i'' \<and> hd ds \<noteq> CHR ''l'' \<and> hd ds \<noteq> CHR ''d'' \<and> hd ds \<noteq> CHR ''e''
       \<and> hd ds \<noteq> CHR '':''"
  using is_digit_not_special[of "hd ds"]
  by (cases ds) (auto simp: Atoi_def Let_def split: if_splits)

section \<open>Reading from the slice\<close>

lemma skip_0 [simp]: "skip r 0 = r"
  by (simp add: skip_def)

lemma skip_skip [simp]: "skip (skip r a) b = skip r (a + b)"
  by (simp add: skip_def add.assoc)

lemma rest_of_skip: "rest_of r = bs @ rest \<Longrightarrow> rest_of (skip r (length bs)) = rest"
proof -
  assume a: "rest_of r = bs @ rest"
  have "rest_of (skip r (length bs)) = drop (length bs) (rest_of r)"
    by (simp add: rest_of_def skip_def add.commute)
  with a show ?thesis by simp
qed

lemma rest_of_skip1 [simp]: "rest_of r = c # rest \<Longrightarrow> rest_of (skip r (Suc 0)) = rest"
  using rest_of_skip[of r "[c]" rest] by simp

lemma readByte_rest: "rest_of r = c # rest \<Longrightarrow> readByte r = Inr (c, skip r (Suc 0))"
proof -
  assume a: "rest_of r = c # rest"
  then have "rd_i r < length (rd_s r)"
    by (cases "rd_i r < length (rd_s r)") (auto simp: rest_of_def)
  moreover from a have "rd_s r ! rd_i r = c"
    by (simp add: rest_of_def nth_via_drop)
  ultimately show ?thesis by (simp add: readByte_def skip_def)
qed


lemma unreadByte_skip: "unreadByte (skip r (Suc 0)) c = Inr r"
  by (simp add: unreadByte_def skip_def)

lemma readUntilColon_loop_rest:
  "CHR '':'' \<notin> set ls \<Longrightarrow> rest_of r = ls @ '':'' @ rest \<Longrightarrow>
     readUntilColon_loop r buf = Inr (buf @ ls, skip r (Suc (length ls)))"
proof (induction ls arbitrary: r buf)
  case Nil
  then have "readByte r = Inr (CHR '':'', skip r (Suc 0))" by (simp add: readByte_rest)
  then show ?case by (subst readUntilColon_loop.simps) simp
next
  case (Cons c ls)
  from Cons.prems have rb: "readByte r = Inr (c, skip r (Suc 0))" by (simp add: readByte_rest)
  from Cons.prems have "rest_of (skip r (Suc 0)) = ls @ '':'' @ rest" by (simp add: rest_of_skip1)
  from Cons.IH[OF _ this, of "buf @ [c]"] Cons.prems(1) rb show ?case
    by (subst readUntilColon_loop.simps) auto
qed

lemma unmarshalInt_loop_rest:
  "CHR ''e'' \<notin> set ds \<Longrightarrow> rest_of r = ds @ ''e'' @ rest \<Longrightarrow>
     unmarshalInt_loop r buf = Inr (buf @ ds, skip r (Suc (length ds)))"
proof (induction ds arbitrary: r buf)
  case Nil
  then have "readByte r = Inr (CHR ''e'', skip r (Suc 0))" by (simp add: readByte_rest)
  then show ?case by (subst unmarshalInt_loop.simps) simp
next
  case (Cons c ds)
  from Cons.prems have rb: "readByte r = Inr (c, skip r (Suc 0))" by (simp add: readByte_rest)
  from Cons.prems have "rest_of (skip r (Suc 0)) = ds @ ''e'' @ rest" by (simp add: rest_of_skip1)
  from Cons.IH[OF _ this, of "buf @ [c]"] Cons.prems(1) rb show ?case
    by (subst unmarshalInt_loop.simps) auto
qed

lemma ReadFull_rest:
  "rest_of r = body @ rest \<Longrightarrow> ReadFull r (length body) = Inr (body, skip r (length body))"
proof (cases "body = []")
  case True
  then show ?thesis by (simp add: ReadFull_def)
next
  case False
  assume a: "rest_of r = body @ rest"
  then have "length (rest_of r) = length (body @ rest)" by simp
  then have "length body \<le> length (rd_s r) - rd_i r"
    by (simp add: rest_of_def)
  with False a show ?thesis
    by (auto simp: ReadFull_def rest_of_def skip_def)
qed

lemma unmarshalString_token:
  assumes "string_token bs str" "rest_of r = bs @ rest"
  shows "unmarshalString r = Inr (str, skip r (length bs))"
  using assms
proof (cases rule: string_token.cases)
  case (string_tokenI ls)
  with assms(2) have r: "rest_of r = ls @ '':'' @ (str @ rest)" by simp
  from readUntilColon_loop_rest[OF string_tokenI(3) r, of "[]"]
  have ru: "readUntilColon r = Inr (ls, skip r (Suc (length ls)))"
    by (simp add: readUntilColon_def)
  from r have "rest_of (skip r (length (ls @ '':''))) = str @ rest"
    by (intro rest_of_skip) simp
  then have "ReadFull (skip r (Suc (length ls))) (length str) = Inr (str, skip r (Suc (length ls) + length str))"
    using ReadFull_rest[of "skip r (Suc (length ls))" str rest] by simp
  with ru string_tokenI show ?thesis
    by (simp add: unmarshalString_def add.assoc)
qed

lemma string_token_hd:
  assumes "string_token bs str"
  shows "\<exists>c cs. bs = c # cs \<and> c \<noteq> CHR ''e'' \<and> c \<noteq> CHR ''i'' \<and> c \<noteq> CHR ''l'' \<and> c \<noteq> CHR ''d''"
  using assms
proof (cases rule: string_token.cases)
  case (string_tokenI ls)
  from Atoi_Some_hd[OF string_tokenI(2)] string_tokenI(1) show ?thesis
    by (cases ls) auto
qed

lemma decodes_hd:
  assumes "decodes bs v"
  shows "\<exists>c cs. bs = c # cs \<and> c \<noteq> CHR ''e''"
  using assms by (cases rule: decodes.cases) (auto dest: string_token_hd)

lemma unmarshalValue_string:
  assumes "string_token bs str" "rest_of r = bs @ rest"
  shows "unmarshalValue r = Inr (VStr str, skip r (length bs))"
proof -
  from string_token_hd[OF assms(1)] obtain c cs where
    bs: "bs = c # cs" and c: "c \<noteq> CHR ''i''" "c \<noteq> CHR ''l''" "c \<noteq> CHR ''d''" by blast
  from assms(2) bs have "readByte r = Inr (c, skip r (Suc 0))" by (simp add: readByte_rest)
  with c unmarshalString_token[OF assms] show ?thesis
    by (subst unmarshalValue.simps) (simp add: unreadByte_skip)
qed

lemma unmarshalValue_int:
  assumes "Atoi ds = Some n" "CHR ''e'' \<notin> set ds" "rest_of r = ''i'' @ ds @ ''e'' @ rest"
  shows "unmarshalValue r = Inr (VInt n, skip r (Suc (Suc (length ds))))"
proof -
  from assms(3) have rb: "readByte r = Inr (CHR ''i'', skip r (Suc 0))" by (simp add: readByte_rest)
  from assms(3) have "rest_of (skip r (Suc 0)) = ds @ ''e'' @ rest" by (simp add: rest_of_skip1)
  from unmarshalInt_loop_rest[OF assms(2) this, of "[]"] assms(1)
  have "unmarshalInt (skip r (Suc 0)) = Inr (n, skip r (Suc (Suc (length ds))))"
    by (simp add: unmarshalInt_def)
  with rb show ?thesis by (subst unmarshalValue.simps) simp
qed

lemma store_Cons: "store acc (kv # kvs) = store (AList.update (fst kv) (snd kv) acc) kvs"
  by (simp add: store_def)

lemma decode_sound:
  "(decodes bs v \<longrightarrow> (\<forall>r rest. rest_of r = bs @ rest \<longrightarrow>
        unmarshalValue r = Inr (v, skip r (length bs))))
 \<and> (decodes_list bsl vs \<longrightarrow> (\<forall>r rest acc. rest_of r = bsl @ ''e'' @ rest \<longrightarrow>
        unmarshalList r acc = Inr (acc @ vs, skip r (Suc (length bsl)))))
 \<and> (decodes_entries bse kvs \<longrightarrow> (\<forall>r rest acc. rest_of r = bse @ ''e'' @ rest \<longrightarrow>
        unmarshalDict r acc = Inr (store acc kvs, skip r (Suc (length bse)))))"
proof (induction rule: decodes_decodes_list_decodes_entries.induct)
  case (dec_int ds n)
  then show ?case using unmarshalValue_int[of ds n] by simp
next
  case (dec_str bs str)
  then show ?case using unmarshalValue_string[of bs str] by simp
next
  case (dec_list bs vs)
  show ?case
  proof (intro allI impI)
    fix r rest assume a: "rest_of r = (''l'' @ bs @ ''e'') @ rest"
    then have rb: "readByte r = Inr (CHR ''l'', skip r (Suc 0))" by (simp add: readByte_rest)
    from a have "rest_of (skip r (Suc 0)) = bs @ ''e'' @ rest" by (simp add: rest_of_skip1)
    with dec_list.IH have "unmarshalList (skip r (Suc 0)) [] = Inr ([] @ vs, skip (skip r (Suc 0)) (Suc (length bs)))"
      by blast
    with rb show "unmarshalValue r = Inr (VList vs, skip r (length (''l'' @ bs @ ''e'')))"
      by (subst unmarshalValue.simps) simp
  qed
next
  case (dec_dict bs kvs)
  show ?case
  proof (intro allI impI)
    fix r rest assume a: "rest_of r = (''d'' @ bs @ ''e'') @ rest"
    then have rb: "readByte r = Inr (CHR ''d'', skip r (Suc 0))" by (simp add: readByte_rest)
    from a have "rest_of (skip r (Suc 0)) = bs @ ''e'' @ rest" by (simp add: rest_of_skip1)
    with dec_dict.IH have "unmarshalDict (skip r (Suc 0)) [] = Inr (store [] kvs, skip (skip r (Suc 0)) (Suc (length bs)))"
      by blast
    with rb show "unmarshalValue r = Inr (VDict (store [] kvs), skip r (length (''d'' @ bs @ ''e'')))"
      by (subst unmarshalValue.simps) simp
  qed
next
  case dec_nil
  show ?case
  proof (intro allI impI)
    fix r rest acc assume a: "rest_of r = [] @ ''e'' @ rest"
    then have rb: "readByte r = Inr (CHR ''e'', skip r (Suc 0))" by (simp add: readByte_rest)
    then show "unmarshalList r acc = Inr (acc @ [], skip r (Suc (length ([]::string))))"
      by (subst unmarshalList.simps) simp
  qed
next
  case (dec_cons b v bs vs)
  from decodes_hd[OF dec_cons.hyps(1)] obtain c cs where b: "b = c # cs" and c: "c \<noteq> CHR ''e''"
    by blast
  show ?case
  proof (intro allI impI)
    fix r rest acc assume a: "rest_of r = (b @ bs) @ ''e'' @ rest"
    with b have rb: "readByte r = Inr (c, skip r (Suc 0))" by (simp add: readByte_rest)
    from a have a': "rest_of r = b @ (bs @ ''e'' @ rest)" by simp
    with dec_cons.IH(1) have uv: "unmarshalValue r = Inr (v, skip r (length b))" by blast
    from rest_of_skip[OF a'] dec_cons.IH(2)
    have "unmarshalList (skip r (length b)) (acc @ [v])
            = Inr ((acc @ [v]) @ vs, skip (skip r (length b)) (Suc (length bs)))" by blast
    with rb c uv show "unmarshalList r acc = Inr (acc @ v # vs, skip r (Suc (length (b @ bs))))"
      by (subst unmarshalList.simps) (simp add: unreadByte_skip add.assoc)
  qed
next
  case ent_nil
  show ?case
  proof (intro allI impI)
    fix r rest acc assume a: "rest_of r = [] @ ''e'' @ rest"
    then have rb: "readByte r = Inr (CHR ''e'', skip r (Suc 0))" by (simp add: readByte_rest)
    then show "unmarshalDict r acc = Inr (store acc [], skip r (Suc (length ([]::string))))"
      by (subst unmarshalDict.simps) (simp add: store_def)
  qed
next
  case (ent_cons kb k vb v bs kvs)
  from string_token_hd[OF ent_cons.hyps(1)] obtain c cs where kb: "kb = c # cs" and c: "c \<noteq> CHR ''e''"
    by blast
  show ?case
  proof (intro allI impI)
    fix r rest acc assume a: "rest_of r = (kb @ vb @ bs) @ ''e'' @ rest"
    with kb have rb: "readByte r = Inr (c, skip r (Suc 0))" by (simp add: readByte_rest)
    from a have a1: "rest_of r = kb @ (vb @ bs @ ''e'' @ rest)" by simp
    from unmarshalString_token[OF ent_cons.hyps(1) a1]
    have us: "unmarshalString r = Inr (k, skip r (length kb))" .
    from rest_of_skip[OF a1] have a2: "rest_of (skip r (length kb)) = vb @ (bs @ ''e'' @ rest)" .
    with ent_cons.IH(1) have uv: "unmarshalValue (skip r (length kb)) = Inr (v, skip (skip r (length kb)) (length vb))"
      by blast
    from rest_of_skip[OF a2] ent_cons.IH(2)
    have "unmarshalDict (skip (skip r (length kb)) (length vb)) (AList.update k v acc)
            = Inr (store (AList.update k v acc) kvs, skip (skip (skip r (length kb)) (length vb)) (Suc (length bs)))"
      by blast
    with rb c us uv show "unmarshalDict r acc = Inr (store acc ((k, v) # kvs), skip r (Suc (length (kb @ vb @ bs))))"
      by (subst unmarshalDict.simps) (simp add: unreadByte_skip add.assoc store_Cons)
  qed
qed

lemma rest_of_start: "rest_of \<lparr>rd_s = data, rd_i = 0\<rparr> = data"
  by (simp add: rest_of_def)

lemma Unmarshal_decodes: "decodes bs v \<Longrightarrow> Unmarshal (bs @ rest) = Inr v"
  using decode_sound[of bs v "[]" "[]" "[]" "[]"] rest_of_start[of "bs @ rest"]
  by (simp add: Unmarshal_def)

section \<open>What the encoder writes\<close>

lemma dict_index_mem:
  "k \<in> set (map fst d) \<Longrightarrow> \<exists>v. (k, v) \<in> set d \<and> dict_index d k = v"
proof -
  assume "k \<in> set (map fst d)"
  then obtain v where "map_of d k = Some v"
    by (metis map_of_eq_None_iff not_Some_eq set_map)
  then show ?thesis by (auto simp: dict_index_def dest: map_of_SomeD)
qed

lemma dict_index_distinct:
  "distinct (map fst d) \<Longrightarrow> (k, v) \<in> set d \<Longrightarrow> dict_index d k = v"
  by (simp add: dict_index_def)

lemma marshalList_loop_supported:
  assumes "\<And>x b. x \<in> set xs \<Longrightarrow> marshalValue x b = (b @ encoding x, None)"
  shows "marshalList_loop xs b = (b @ concat (map encoding xs), False)"
  using assms by (induction xs arbitrary: b) simp_all

lemma marshalDict_loop_supported:
  assumes "\<And>k b. k \<in> set ks \<Longrightarrow> marshalValue (dict_index d k) b = (b @ encoding (dict_index d k), None)"
  shows "marshalDict_loop d ks b =
           (b @ concat (map (\<lambda>k. marshalString k [] @ encoding (dict_index d k)) ks), False)"
  using assms by (induction ks arbitrary: b) (simp_all add: marshalString_def)

lemma marshalValue_supported:
  "supported v \<Longrightarrow> marshalValue v b = (b @ encoding v, None)"
proof (induction v arbitrary: b)
  case (VInt n)
  show ?case by (simp add: encoding_def marshalInt_def)
next
  case (VStr str)
  show ?case by (simp add: encoding_def marshalString_def)
next
  case (VList xs)
  have *: "\<And>x b. x \<in> set xs \<Longrightarrow> marshalValue x b = (b @ encoding x, None)"
    using VList by (simp add: list_all_iff)
  have "\<And>b. marshalList_loop xs b = (b @ concat (map encoding xs), False)"
    by (rule marshalList_loop_supported) (rule *)
  then show ?case
    by (simp add: encoding_def)
next
  case (VDict d)
  have *: "\<And>k b. k \<in> set (sort (map fst d)) \<Longrightarrow>
      marshalValue (dict_index d k) b = (b @ encoding (dict_index d k), None)"
  proof -
    fix k b assume "k \<in> set (sort (map fst d))"
    then have "k \<in> set (map fst d)" by simp
    from dict_index_mem[OF this] obtain v where kv: "(k, v) \<in> set d" "dict_index d k = v" by blast
    with VDict.prems have "supported v" by (auto simp: list_all_iff)
    with VDict.IH[OF kv(1), of v b] kv show
      "marshalValue (dict_index d k) b = (b @ encoding (dict_index d k), None)" by simp
  qed
  have "\<And>b. marshalDict_loop d (sort (map fst d)) b =
      (b @ concat (map (\<lambda>k. marshalString k [] @ encoding (dict_index d k)) (sort (map fst d))), False)"
    by (rule marshalDict_loop_supported) (rule *)
  then show ?case
    by (simp add: encoding_def)
next
  case VOther
  then show ?case by simp
qed

lemma Marshal_supported: "supported v \<Longrightarrow> Marshal v = Inr (encoding v)"
  by (simp add: Marshal_def marshalValue_supported)

lemma encoding_VInt: "encoding (VInt n) = ''i'' @ Itoa n @ ''e''"
  by (simp add: encoding_def marshalInt_def)

lemma encoding_VStr: "encoding (VStr str) = Itoa (int (length str)) @ '':'' @ str"
  by (simp add: encoding_def marshalString_def)

lemma encoding_VList:
  assumes "list_all supported xs"
  shows "encoding (VList xs) = ''l'' @ concat (map encoding xs) @ ''e''"
proof -
  have "\<And>x b. x \<in> set xs \<Longrightarrow> marshalValue x b = (b @ encoding x, None)"
    using assms by (simp add: list_all_iff marshalValue_supported)
  then have "\<And>b. marshalList_loop xs b = (b @ concat (map encoding xs), False)"
    by (rule marshalList_loop_supported)
  then show ?thesis by (simp add: encoding_def)
qed

lemma encoding_VDict:
  assumes "list_all (\<lambda>kv. supported (snd kv)) d"
  shows "encoding (VDict d) =
    ''d'' @ concat (map (\<lambda>k. encoding (VStr k) @ encoding (dict_index d k)) (sort (map fst d))) @ ''e''"
proof -
  have "\<And>k b. k \<in> set (sort (map fst d)) \<Longrightarrow>
      marshalValue (dict_index d k) b = (b @ encoding (dict_index d k), None)"
  proof -
    fix k b assume "k \<in> set (sort (map fst d))"
    then have "k \<in> set (map fst d)" by simp
    from dict_index_mem[OF this] obtain v where kv: "(k, v) \<in> set d" "dict_index d k = v" by blast
    with assms have "supported v" by (auto simp: list_all_iff)
    with kv show "marshalValue (dict_index d k) b = (b @ encoding (dict_index d k), None)"
      by (simp add: marshalValue_supported)
  qed
  then have "\<And>b. marshalDict_loop d (sort (map fst d)) b =
      (b @ concat (map (\<lambda>k. marshalString k [] @ encoding (dict_index d k)) (sort (map fst d))), False)"
    by (rule marshalDict_loop_supported)
  then show ?thesis
    by (simp add: encoding_def marshalString_def)
qed

section \<open>Encoded values are accepted\<close>

lemma update_fresh: "k \<notin> fst ` set acc \<Longrightarrow> AList.update k v acc = acc @ [(k, v)]"
  by (induction acc) auto

lemma store_distinct:
  "distinct (map fst kvs) \<Longrightarrow> fst ` set acc \<inter> fst ` set kvs = {} \<Longrightarrow> store acc kvs = acc @ kvs"
proof (induction kvs arbitrary: acc)
  case Nil
  show ?case by (simp add: store_def)
next
  case (Cons kv kvs)
  from Cons.prems have fresh: "fst kv \<notin> fst ` set acc" by auto
  from Cons.prems have "fst ` set (acc @ [kv]) \<inter> fst ` set kvs = {}" by auto
  with Cons.IH[of "acc @ [kv]"] Cons.prems(1) have "store (acc @ [kv]) kvs = (acc @ [kv]) @ kvs"
    by simp
  with update_fresh[OF fresh, of "snd kv"] show ?case by (simp add: store_Cons)
qed

lemma store_Nil_distinct: "distinct (map fst kvs) \<Longrightarrow> store [] kvs = kvs"
  using store_distinct[of kvs "[]"] by simp

lemma string_token_encoding:
  "length str < 2 ^ 63 \<Longrightarrow> string_token (encoding (VStr str)) str"
proof -
  assume "length str < 2 ^ 63"
  then have "Atoi (Itoa (int (length str))) = Some (int (length str))"
    by (intro Atoi_Itoa) (simp_all add: nat_less_iff)
  from string_tokenI[OF this] Itoa_no_special[of "int (length str)"]
  show ?thesis by (simp add: encoding_VStr)
qed

lemma decodes_list_encoding:
  assumes "\<And>x. x \<in> set xs \<Longrightarrow> decodes (encoding x) (canon x)"
  shows "decodes_list (concat (map encoding xs)) (map canon xs)"
  using assms
proof (induction xs)
  case Nil
  show ?case by (simp add: dec_nil)
next
  case (Cons x xs)
  then show ?case using dec_cons[of "encoding x" "canon x" "concat (map encoding xs)" "map canon xs"]
    by simp
qed

lemma decodes_entries_encoding:
  assumes "\<And>k. k \<in> set ks \<Longrightarrow> length k < 2 ^ 63 \<and> decodes (encoding (dict_index d k)) (canon (dict_index d k))"
  shows "decodes_entries (concat (map (\<lambda>k. encoding (VStr k) @ encoding (dict_index d k)) ks))
           (map (\<lambda>k. (k, canon (dict_index d k))) ks)"
  using assms
proof (induction ks)
  case Nil
  show ?case by (simp add: ent_nil)
next
  case (Cons k ks)
  from Cons.prems[of k] have k: "string_token (encoding (VStr k)) k"
    and v: "decodes (encoding (dict_index d k)) (canon (dict_index d k))"
    by (simp_all add: string_token_encoding)
  from Cons have "decodes_entries (concat (map (\<lambda>k. encoding (VStr k) @ encoding (dict_index d k)) ks))
           (map (\<lambda>k. (k, canon (dict_index d k))) ks)" by simp
  from ent_cons[OF k v this] show ?case by simp
qed

lemma decodes_encoding:
  "supported v \<Longrightarrow> unique_keys v \<Longrightarrow> representable v \<Longrightarrow> decodes (encoding v) (canon v)"
proof (induction v)
  case (VInt n)
  then have "Atoi (Itoa n) = Some n" by (intro Atoi_Itoa) simp_all
  from dec_int[OF this] Itoa_no_special[of n] show ?case by (simp add: encoding_VInt)
next
  case (VStr str)
  then show ?case by (simp add: dec_str string_token_encoding)
next
  case (VList xs)
  then have "\<And>x. x \<in> set xs \<Longrightarrow> decodes (encoding x) (canon x)"
    by (simp add: list_all_iff)
  then have "decodes_list (concat (map encoding xs)) (map canon xs)"
    by (rule decodes_list_encoding)
  from dec_list[OF this] VList.prems(1) show ?case
    by (simp add: encoding_VList)
next
  case (VDict d)
  let ?ks = "sort (map fst d)"
  have "\<And>k. k \<in> set ?ks \<Longrightarrow>
      length k < 2 ^ 63 \<and> decodes (encoding (dict_index d k)) (canon (dict_index d k))"
  proof -
    fix k assume "k \<in> set ?ks"
    then have "k \<in> set (map fst d)" by simp
    from dict_index_mem[OF this] obtain v where kv: "(k, v) \<in> set d" "dict_index d k = v" by blast
    with VDict.prems have "supported v" "unique_keys v" "representable v" "length k < 2 ^ 63"
      by (auto simp: list_all_iff)
    with VDict.IH[OF kv(1), of v] kv show
      "length k < 2 ^ 63 \<and> decodes (encoding (dict_index d k)) (canon (dict_index d k))" by simp
  qed
  then have "decodes_entries (concat (map (\<lambda>k. encoding (VStr k) @ encoding (dict_index d k)) ?ks))
           (map (\<lambda>k. (k, canon (dict_index d k))) ?ks)"
    by (rule decodes_entries_encoding)
  from dec_dict[OF this]
  have "decodes (encoding (VDict d)) (VDict (store [] (map (\<lambda>k. (k, canon (dict_index d k))) ?ks)))"
    using VDict.prems(1) by (simp add: encoding_VDict)
  moreover from VDict.prems(2) have "distinct (map fst (map (\<lambda>k. (k, canon (dict_index d k))) ?ks))"
    by (simp add: comp_def)
  ultimately show ?case by (simp add: store_Nil_distinct)
next
  case VOther
  then show ?case by simp
qed

lemma dict_index_map:
  "k \<in> set ks \<Longrightarrow> dict_index (map (\<lambda>k. (k, f k)) ks) k = f k"
proof -
  assume "k \<in> set ks"
  then have "map_of (map (\<lambda>k. (k, f k)) ks) k = Some (f k)"
    by (induction ks) auto
  then show ?thesis by (simp add: dict_index_def)
qed

lemma val_eq_canon: "unique_keys v \<Longrightarrow> val_eq (canon v) v"
proof (induction v)
  case (VList xs)
  then have "\<And>x. x \<in> set xs \<Longrightarrow> val_eq (canon x) x" by (simp add: list_all_iff)
  then show ?case by (simp add: list_all2_map1 list_all2_same)
next
  case (VDict d)
  let ?d' = "map (\<lambda>k. (k, canon (dict_index d k))) (sort (map fst d))"
  have keys: "map fst ?d' = sort (map fst d)" by (simp add: comp_def)
  have "\<And>k. k \<in> set (sort (map fst d)) \<Longrightarrow> val_eq (dict_index ?d' k) (dict_index d k)"
  proof -
    fix k assume k: "k \<in> set (sort (map fst d))"
    then have "k \<in> set (map fst d)" by simp
    from dict_index_mem[OF this] obtain v where kv: "(k, v) \<in> set d" "dict_index d k = v" by blast
    with VDict.prems have "unique_keys v" by (auto simp: list_all_iff)
    with VDict.IH[OF kv(1), of v] kv have "val_eq (canon (dict_index d k)) (dict_index d k)" by simp
    with dict_index_map[OF k, of "\<lambda>k. canon (dict_index d k)"]
    show "val_eq (dict_index ?d' k) (dict_index d k)" by simp
  qed
  then show ?case by (simp add: keys list_all_iff del: map_map)
qed simp_all

section \<open>Equal values are written alike; canonical bytes\<close>

lemma marshalList_loop_cong:
  "list_all2 (\<lambda>x y. \<forall>b. marshalValue x b = marshalValue y b) xs ys \<Longrightarrow>
     marshalList_loop xs b = marshalList_loop ys b"
  by (induction xs ys arbitrary: b rule: list_all2_induct) simp_all

lemma marshalDict_loop_cong:
  "(\<And>k b. k \<in> set ks \<Longrightarrow> marshalValue (dict_index d k) b = marshalValue (dict_index e k) b) \<Longrightarrow>
     marshalDict_loop d ks b = marshalDict_loop e ks b"
  by (induction ks arbitrary: b) simp_all

lemma sort_distinct_set:
  fixes xs ys :: "string list"
  shows "distinct xs \<Longrightarrow> distinct ys \<Longrightarrow> set xs = set ys \<Longrightarrow> sort xs = sort ys"
  by (intro sorted_distinct_set_unique) simp_all

lemma unique_keys_dict_index:
  "unique_keys (VDict d) \<Longrightarrow> unique_keys (dict_index d k)"
  by (auto simp: dict_index_def list_all_iff split: option.splits dest!: map_of_SomeD)

lemma marshalValue_val_eq:
  "val_eq a b \<Longrightarrow> unique_keys a \<Longrightarrow> unique_keys b \<Longrightarrow> marshalValue a buf = marshalValue b buf"
proof (induction a b arbitrary: buf rule: val_eq.induct)
  case (3 xs ys)
  from "3.prems"(1) have "list_all2 val_eq xs ys" by simp
  then have "list_all2 (\<lambda>x y. \<forall>b. marshalValue x b = marshalValue y b) xs ys"
  proof (rule list.rel_mono_strong)
    fix z yb assume "z \<in> set xs" "yb \<in> set ys" "val_eq z yb"
    with "3.IH"[of z yb] "3.prems"(2,3) show "\<forall>b. marshalValue z b = marshalValue yb b"
      by (simp add: list_all_iff)
  qed
  from marshalList_loop_cong[OF this] show ?case by simp
next
  case (4 d e)
  from "4.prems" have keys: "sort (map fst d) = sort (map fst e)"
    by (intro sort_distinct_set) simp_all
  have "\<And>k b. k \<in> set (sort (map fst d)) \<Longrightarrow>
      marshalValue (dict_index d k) b = marshalValue (dict_index e k) b"
  proof -
    fix k b assume "k \<in> set (sort (map fst d))"
    then have k: "k \<in> set (map fst d)" by simp
    then obtain kv where "kv \<in> set d" "fst kv = k" by auto
    moreover from "4.prems"(1)
    have "\<forall>kv\<in>set d. val_eq (dict_index d (fst kv)) (dict_index e (fst kv))"
      by (simp add: list_all_iff)
    ultimately have "val_eq (dict_index d k) (dict_index e k)" by blast
    from "4.IH"[OF k this unique_keys_dict_index[OF "4.prems"(2)] unique_keys_dict_index[OF "4.prems"(3)]]
    show "marshalValue (dict_index d k) b = marshalValue (dict_index e k) b" .
  qed
  then have "\<And>b. marshalDict_loop d (sort (map fst d)) b = marshalDict_loop e (sort (map fst d)) b"
    by (rule marshalDict_loop_cong)
  with keys show ?case by simp
qed simp_all

lemma Marshal_val_eq:
  "val_eq a b \<Longrightarrow> unique_keys a \<Longrightarrow> unique_keys b \<Longrightarrow> Marshal a = Marshal b"
  by (simp add: Marshal_def marshalValue_val_eq)

lemma sorted_keys:
  fixes d :: "(string \<times> val) list"
  shows "distinct (map fst d) \<Longrightarrow> sorted_wrt (<) (sort (map fst d))"
  by (simp add: strict_sorted_iff)

lemmas dec_int' = dec_int[simplified]
lemmas dec_list' = dec_list[simplified]
lemmas dec_dict' = dec_dict[simplified]

lemma canonical_digits_no_special:
  "canonical_digits ds \<Longrightarrow> CHR '':'' \<notin> set ds \<and> CHR ''e'' \<notin> set ds"
  by (simp add: canonical_digits_def list_all_digit_no_special)

lemma canonical_integer_Atoi:
  assumes "canonical_integer ds n"
  shows "Atoi ds = Some n \<and> Itoa n = ds \<and> CHR ''e'' \<notin> set ds"
  using assms
proof (cases rule: canonical_integer.cases)
  case can_nonneg
  then show ?thesis
    using Atoi_digits[of ds] digits_digits_val[of ds] canonical_digits_no_special[of ds]
    by (simp add: canonical_digits_def Itoa_def)
next
  case (can_neg ds')
  then have ne: "ds' \<noteq> []" and all: "list_all is_digit ds'" and hd: "hd ds' \<noteq> CHR ''0''"
    by (auto simp: canonical_digits_def)
  from digits_val_pos[OF ne all hd] have "0 < digits_val ds'" .
  with can_neg show ?thesis
    using Atoi_minus_digits[OF ne all] digits_digits_val[of ds'] canonical_digits_no_special[of ds']
    by (simp add: Itoa_def)
qed

lemma canonical_string_token:
  assumes "canonical_string bs str"
  shows "string_token bs str \<and> encoding (VStr str) = bs"
  using assms
proof (cases rule: canonical_string.cases)
  case (canonical_stringI ls)
  then have "Atoi ls = Some (int (length str))"
    using Atoi_digits[of ls] by (simp add: canonical_digits_def)
  from string_tokenI[OF this] canonical_stringI show ?thesis
    using digits_digits_val[of ls] canonical_digits_no_special[of ls]
    by (simp add: encoding_VStr Itoa_def)
qed

lemma canonical_sound:
  "(canonical bs v \<longrightarrow> decodes bs v \<and> encoding v = bs \<and> supported v)
 \<and> (canonical_list bsl vs \<longrightarrow>
       decodes_list bsl vs \<and> concat (map encoding vs) = bsl \<and> list_all supported vs)
 \<and> (canonical_entries bse kvs \<longrightarrow>
       decodes_entries bse kvs \<and> concat (map entry_bytes kvs) = bse
       \<and> list_all (\<lambda>kv. supported (snd kv)) kvs \<and> sorted_wrt (<) (map fst kvs))"
proof (induction rule: canonical_canonical_list_canonical_entries.induct)
  case (can_int ds n)
  from canonical_integer_Atoi[OF this] dec_int'[of ds n] show ?case
    by (simp add: encoding_VInt)
next
  case (can_str bs str)
  from canonical_string_token[OF this] show ?case by (simp add: dec_str)
next
  case (can_list bs vs)
  then show ?case by (simp add: dec_list' encoding_VList)
next
  case (can_dict bs kvs)
  then have sorted: "sorted_wrt (<) (map fst kvs)" and sup: "list_all (\<lambda>kv. supported (snd kv)) kvs"
    and bs: "concat (map entry_bytes kvs) = bs" and dec: "decodes_entries bs kvs" by simp_all
  from sorted have dist: "distinct (map fst kvs)" and srt: "sorted (map fst kvs)"
    by (simp_all add: strict_sorted_iff)
  from srt have "sort (map fst kvs) = map fst kvs" by (rule sorted_sort_id)
  moreover have "map (\<lambda>k. encoding (VStr k) @ encoding (dict_index kvs k)) (map fst kvs)
        = map entry_bytes kvs"
    using dist by (auto simp: entry_bytes_def dict_index_distinct)
  ultimately have "encoding (VDict kvs) = ''d'' @ bs @ ''e''"
    using sup bs by (simp add: encoding_VDict del: map_map)
  with dec_dict'[OF dec] dist sup show ?case by (simp add: store_Nil_distinct)
next
  case can_nil
  show ?case by (simp add: dec_nil)
next
  case (can_cons b v bs vs)
  then show ?case by (simp add: dec_cons)
next
  case can_ent_nil
  show ?case by (simp add: ent_nil)
next
  case (can_ent_cons kb k vb v bs kvs)
  from canonical_string_token[OF can_ent_cons.hyps(1)] can_ent_cons show ?case
    by (simp add: ent_cons entry_bytes_def list_all_iff)
qed

lemma canonical_roundtrip:
  "canonical bs v \<Longrightarrow> Unmarshal bs = Inr v \<and> Marshal v = Inr bs"
  using canonical_sound[of bs v "[]" "[]" "[]" "[]"] Unmarshal_decodes[of bs v "[]"]
  by (simp add: Marshal_supported)

section \<open>Truncated input, nesting, repeated keys\<close>









lemma map_of_store: "map_of (store acc kvs) = map_of (rev kvs @ acc)"
proof (induction kvs arbitrary: acc)
  case Nil
  show ?case by (simp add: store_def)
next
  case (Cons kv kvs)
  have "map_of (store (AList.update (fst kv) (snd kv) acc) kvs)
      = map_of (rev kvs @ AList.update (fst kv) (snd kv) acc)" by (rule Cons.IH)
  also have "\<dots> = map_of (rev kvs @ kv # acc)"
    by (simp add: update_conv')
  finally show ?case by (simp add: store_Cons)
qed

lemma distinct_store: "distinct (map fst acc) \<Longrightarrow> distinct (map fst (store acc kvs))"
  by (induction kvs arbitrary: acc) (simp_all add: store_def distinct_update)

lemma store_last:
  assumes "k \<notin> fst ` set post"
  shows "dict_index (store [] (pre @ (k, v) # post)) k = v"
proof -
  from assms have "map_of (rev post) k = None"
    by (simp add: map_of_eq_None_iff)
  then have "map_of (rev (pre @ (k, v) # post)) k = Some v"
    by (simp add: map_add_def)
  then show ?thesis by (simp add: dict_index_def map_of_store)
qed

section \<open>Every input the decoder accepts is of that form\<close>

text \<open>
  The converse of \<open>decode_sound\<close>: whenever \<open>unmarshalValue\<close> returns a value, the bytes
  it has read are an encoding of that value in the sense of \<open>decodes\<close>. So \<open>decodes\<close>
  describes exactly the inputs that \<^verbatim>\<open>Unmarshal\<close> accepts.
\<close>

lemma readByte_Inr_rest:
  assumes "readByte r = Inr (ch, r1)"
  shows "rest_of r = ch # rest_of r1"
proof -
  from assms have lt: "rd_i r < length (rd_s r)" and r1: "r1 = r\<lparr>rd_i := rd_i r + 1\<rparr>"
    and ch: "ch = rd_s r ! rd_i r"
    by (auto simp: readByte_def split: if_splits)
  from lt have "drop (rd_i r) (rd_s r) = rd_s r ! rd_i r # drop (Suc (rd_i r)) (rd_s r)"
    by (simp add: Cons_nth_drop_Suc)
  with r1 ch show ?thesis by (simp add: rest_of_def)
qed

lemma unreadByte_after_readByte:
  "readByte r = Inr (ch, r1) \<Longrightarrow> unreadByte r1 b = Inr r2 \<Longrightarrow> r2 = r"
  by (auto simp: readByte_def unreadByte_def split: if_splits)

lemma readUntilColon_loop_Inr:
  "readUntilColon_loop r buf = Inr (str, r') \<Longrightarrow>
     \<exists>ls. str = buf @ ls \<and> CHR '':'' \<notin> set ls \<and> rest_of r = ls @ '':'' @ rest_of r'"
proof (induction r buf rule: readUntilColon_loop.induct)
  case (1 r buf)
  from "1.prems" obtain ch r1 where rb: "readByte r = Inr (ch, r1)"
    by (subst (asm) readUntilColon_loop.simps) (auto split: sum.splits)
  note rbI = readByte_Inr_rest[OF rb]
  show ?case
  proof (cases "ch = CHR '':''")
    case True
    with "1.prems" rb have "Inr (buf, r1) = (Inr (str, r') :: (string \<times> reader) result)"
      by (subst (asm) readUntilColon_loop.simps) simp
    then have "r' = r1" "str = buf" by simp_all
    with rbI True show ?thesis by simp
  next
    case False
    with "1.prems" rb have "readUntilColon_loop r1 (buf @ [ch]) = Inr (str, r')"
      by (subst (asm) readUntilColon_loop.simps) simp
    from "1.IH"[OF rb refl False this] obtain ls where
      "str = (buf @ [ch]) @ ls" "CHR '':'' \<notin> set ls" "rest_of r1 = ls @ '':'' @ rest_of r'" by blast
    with rbI False show ?thesis by (intro exI[of _ "ch # ls"]) auto
  qed
qed

lemma unmarshalInt_loop_Inr:
  "unmarshalInt_loop r buf = Inr (str, r') \<Longrightarrow>
     \<exists>ds. str = buf @ ds \<and> CHR ''e'' \<notin> set ds \<and> rest_of r = ds @ ''e'' @ rest_of r'"
proof (induction r buf rule: unmarshalInt_loop.induct)
  case (1 r buf)
  from "1.prems" obtain ch r1 where rb: "readByte r = Inr (ch, r1)"
    by (subst (asm) unmarshalInt_loop.simps) (auto split: sum.splits)
  note rbI = readByte_Inr_rest[OF rb]
  show ?case
  proof (cases "ch = CHR ''e''")
    case True
    with "1.prems" rb have "Inr (buf, r1) = (Inr (str, r') :: (string \<times> reader) result)"
      by (subst (asm) unmarshalInt_loop.simps) simp
    then have "r' = r1" "str = buf" by simp_all
    with rbI True show ?thesis by simp
  next
    case False
    with "1.prems" rb have "unmarshalInt_loop r1 (buf @ [ch]) = Inr (str, r')"
      by (subst (asm) unmarshalInt_loop.simps) simp
    from "1.IH"[OF rb refl False this] obtain ds where
      "str = (buf @ [ch]) @ ds" "CHR ''e'' \<notin> set ds" "rest_of r1 = ds @ ''e'' @ rest_of r'" by blast
    with rbI False show ?thesis by (intro exI[of _ "ch # ds"]) auto
  qed
qed

lemma ReadFull_Inr_rest:
  assumes "ReadFull r n = Inr (str, r')"
  shows "length str = n \<and> rest_of r = str @ rest_of r'"
proof (cases "n = 0")
  case True
  with assms show ?thesis by (simp add: ReadFull_def)
next
  case False
  with assms have le: "n \<le> length (rd_s r) - rd_i r"
    and str: "str = take n (drop (rd_i r) (rd_s r))" and r': "r' = r\<lparr>rd_i := rd_i r + n\<rparr>"
    by (auto simp: ReadFull_def split: if_splits)
  have "rest_of r' = drop n (rest_of r)"
    using r' by (simp add: rest_of_def add.commute)
  moreover have "str = take n (rest_of r)" using str by (simp add: rest_of_def)
  moreover have "n \<le> length (rest_of r)" using le by (simp add: rest_of_def)
  ultimately show ?thesis by simp
qed

lemma unmarshalString_Inr:
  assumes "unmarshalString r = Inr (str, r')"
  shows "\<exists>bs. string_token bs str \<and> rest_of r = bs @ rest_of r'"
proof -
  from assms obtain ls r1 len where ru: "readUntilColon_loop r [] = Inr (ls, r1)"
    and at: "Atoi ls = Some len" and len: "0 \<le> len" and rf: "ReadFull r1 (nat len) = Inr (str, r')"
    by (auto simp: unmarshalString_def readUntilColon_def split: sum.splits option.splits if_splits)
  from readUntilColon_loop_Inr[OF ru] have c: "CHR '':'' \<notin> set ls"
    and r: "rest_of r = ls @ '':'' @ rest_of r1" by auto
  from ReadFull_Inr_rest[OF rf] have l: "length str = nat len" and r1: "rest_of r1 = str @ rest_of r'"
    by auto
  from at len l have "Atoi ls = Some (int (length str))" by simp
  from string_tokenI[OF this c] r r1 show ?thesis by (intro exI[of _ "ls @ '':'' @ str"]) simp
qed

lemma decode_complete:
  "\<forall>v r'. unmarshalValue r = Inr (v, r') \<longrightarrow>
      (\<exists>bs. decodes bs v \<and> rest_of r = bs @ rest_of r')"
  "\<forall>xs rl'. unmarshalList rl list = Inr (xs, rl') \<longrightarrow>
      (\<exists>bs vs. xs = list @ vs \<and> decodes_list bs vs \<and> rest_of rl = bs @ ''e'' @ rest_of rl')"
  "\<forall>d rd'. unmarshalDict rd dict = Inr (d, rd') \<longrightarrow>
      (\<exists>bs kvs. d = store dict kvs \<and> decodes_entries bs kvs \<and> rest_of rd = bs @ ''e'' @ rest_of rd')"
proof (induction r and rl list and rd dict rule: unmarshalValue_unmarshalList_unmarshalDict.induct)
  case (1 r)
  show ?case
  proof (intro allI impI)
    fix v r' assume a: "unmarshalValue r = Inr (v, r')"
    then obtain ch r1 where rb: "readByte r = Inr (ch, r1)"
      by (subst (asm) unmarshalValue.simps) (auto split: sum.splits)
    note rbI = readByte_Inr_rest[OF rb]
    consider (i) "ch = CHR ''i''" | (l) "ch \<noteq> CHR ''i''" "ch = CHR ''l''"
      | (d) "ch \<noteq> CHR ''i''" "ch \<noteq> CHR ''l''" "ch = CHR ''d''"
      | (s) "ch \<noteq> CHR ''i''" "ch \<noteq> CHR ''l''" "ch \<noteq> CHR ''d''" by blast
    then show "\<exists>bs. decodes bs v \<and> rest_of r = bs @ rest_of r'"
    proof cases
      case i
      with a rb obtain n where ui: "unmarshalInt r1 = Inr (n, r')" and v: "v = VInt n"
        by (subst (asm) unmarshalValue.simps) (auto split: sum.splits)
      from ui obtain buf where ul: "unmarshalInt_loop r1 [] = Inr (buf, r')" and at: "Atoi buf = Some n"
        by (auto simp: unmarshalInt_def split: sum.splits option.splits)
      from unmarshalInt_loop_Inr[OF ul] have e: "CHR ''e'' \<notin> set buf"
        and r1: "rest_of r1 = buf @ ''e'' @ rest_of r'" by auto
      from dec_int[OF at e] rbI r1 i v show ?thesis
        by (intro exI[of _ "''i'' @ buf @ ''e''"]) simp
    next
      case l
      with a rb obtain xs where ul: "unmarshalList r1 [] = Inr (xs, r')" and v: "v = VList xs"
        by (subst (asm) unmarshalValue.simps) (auto split: sum.splits)
      from "1.IH"(1)[OF rb refl l] ul obtain bs where
        "decodes_list bs xs" "rest_of r1 = bs @ ''e'' @ rest_of r'" by auto
      with dec_list[of bs xs] rbI l v show ?thesis
        by (intro exI[of _ "''l'' @ bs @ ''e''"]) simp
    next
      case d
      with a rb obtain d' where ud: "unmarshalDict r1 [] = Inr (d', r')" and v: "v = VDict d'"
        by (subst (asm) unmarshalValue.simps) (auto split: sum.splits)
      from "1.IH"(2)[OF rb refl d] ud obtain bs kvs where
        "d' = store [] kvs" "decodes_entries bs kvs" "rest_of r1 = bs @ ''e'' @ rest_of r'" by auto
      with dec_dict[of bs kvs] rbI d v show ?thesis
        by (intro exI[of _ "''d'' @ bs @ ''e''"]) simp
    next
      case s
      with a rb obtain r2 str where ub: "unreadByte r1 ch = Inr r2"
        and us: "unmarshalString r2 = Inr (str, r')" and v: "v = VStr str"
        by (subst (asm) unmarshalValue.simps) (auto split: sum.splits)
      from unreadByte_after_readByte[OF rb ub] have "r2 = r" .
      with unmarshalString_Inr[OF us] v dec_str show ?thesis by auto
    qed
  qed
next
  case (2 r list)
  show ?case
  proof (intro allI impI)
    fix xs r' assume a: "unmarshalList r list = Inr (xs, r')"
    then obtain ch r1 where rb: "readByte r = Inr (ch, r1)"
      by (subst (asm) unmarshalList.simps) (auto split: sum.splits)
    note rbI = readByte_Inr_rest[OF rb]
    show "\<exists>bs vs. xs = list @ vs \<and> decodes_list bs vs \<and> rest_of r = bs @ ''e'' @ rest_of r'"
    proof (cases "ch = CHR ''e''")
      case True
      with a rb have "Inr (list, r1) = (Inr (xs, r') :: (val list \<times> reader) result)"
        by (subst (asm) unmarshalList.simps) simp
      then have "xs = list" "r' = r1" by simp_all
      moreover from rbI True \<open>r' = r1\<close> have "rest_of r = [] @ ''e'' @ rest_of r'" by simp
      ultimately have "xs = list @ [] \<and> decodes_list [] [] \<and> rest_of r = [] @ ''e'' @ rest_of r'"
        using dec_nil by simp
      then show ?thesis by blast
    next
      case False
      with a rb obtain r2 v r3 where ub: "unreadByte r1 ch = Inr r2"
        and uv: "unmarshalValue r2 = Inr (v, r3)"
        and ul: "unmarshalList r3 (list @ [v]) = Inr (xs, r')"
        by (subst (asm) unmarshalList.simps) (auto split: sum.splits)
      from unreadByte_after_readByte[OF rb ub] have r2: "r2 = r" .
      from "2.IH"(1)[OF rb refl False ub] uv obtain b where
        b: "decodes b v" "rest_of r2 = b @ rest_of r3" by blast
      from "2.IH"(2)[OF rb refl False ub uv refl] ul obtain bs vs where
        bs: "xs = (list @ [v]) @ vs" "decodes_list bs vs" "rest_of r3 = bs @ ''e'' @ rest_of r'"
        by blast
      from dec_cons[OF b(1) bs(2)] b(2) bs(1,3) r2
      have "xs = list @ (v # vs) \<and> decodes_list (b @ bs) (v # vs) \<and> rest_of r = (b @ bs) @ ''e'' @ rest_of r'"
        by simp
      then show ?thesis by blast
    qed
  qed
next
  case (3 r dict)
  show ?case
  proof (intro allI impI)
    fix d r' assume a: "unmarshalDict r dict = Inr (d, r')"
    then obtain ch r1 where rb: "readByte r = Inr (ch, r1)"
      by (subst (asm) unmarshalDict.simps) (auto split: sum.splits)
    note rbI = readByte_Inr_rest[OF rb]
    show "\<exists>bs kvs. d = store dict kvs \<and> decodes_entries bs kvs \<and> rest_of r = bs @ ''e'' @ rest_of r'"
    proof (cases "ch = CHR ''e''")
      case True
      with a rb have "Inr (dict, r1) = (Inr (d, r') :: ((string \<times> val) list \<times> reader) result)"
        by (subst (asm) unmarshalDict.simps) simp
      then have "d = dict" "r' = r1" by simp_all
      moreover from rbI True \<open>r' = r1\<close> have "rest_of r = [] @ ''e'' @ rest_of r'" by simp
      ultimately have "d = store dict [] \<and> decodes_entries [] [] \<and> rest_of r = [] @ ''e'' @ rest_of r'"
        using ent_nil by (simp add: store_def)
      then show ?thesis by blast
    next
      case False
      with a rb obtain r2 key r3 v r4 where ub: "unreadByte r1 ch = Inr r2"
        and us: "unmarshalString r2 = Inr (key, r3)"
        and uv: "unmarshalValue r3 = Inr (v, r4)"
        and ud: "unmarshalDict r4 (AList.update key v dict) = Inr (d, r')"
        by (subst (asm) unmarshalDict.simps) (auto split: sum.splits)
      from unreadByte_after_readByte[OF rb ub] have r2: "r2 = r" .
      from unmarshalString_Inr[OF us] obtain kb where
        kb: "string_token kb key" "rest_of r2 = kb @ rest_of r3" by blast
      from "3.IH"(1)[OF rb refl False ub us refl] uv obtain vb where
        vb: "decodes vb v" "rest_of r3 = vb @ rest_of r4" by blast
      from "3.IH"(2)[OF rb refl False ub us refl uv refl] ud obtain bs kvs where
        bs: "d = store (AList.update key v dict) kvs" "decodes_entries bs kvs"
          "rest_of r4 = bs @ ''e'' @ rest_of r'" by blast
      from ent_cons[OF kb(1) vb(1) bs(2)] kb(2) vb(2) bs(1,3) r2
      have "d = store dict ((key, v) # kvs) \<and> decodes_entries (kb @ vb @ bs) ((key, v) # kvs)
          \<and> rest_of r = (kb @ vb @ bs) @ ''e'' @ rest_of r'"
        by (simp add: store_Cons)
      then show ?thesis by blast
    qed
  qed
qed

lemma Unmarshal_Inr_decodes:
  assumes "Unmarshal data = Inr v"
  shows "\<exists>bs rest. data = bs @ rest \<and> decodes bs v"
proof -
  from assms obtain r' where "unmarshalValue \<lparr>rd_s = data, rd_i = 0\<rparr> = Inr (v, r')"
    by (auto simp: Unmarshal_def split: sum.splits)
  with decode_complete(1)[of "\<lparr>rd_s = data, rd_i = 0\<rparr>"]
  obtain bs where "decodes bs v" "rest_of \<lparr>rd_s = data, rd_i = 0\<rparr> = bs @ rest_of r'" by blast
  then show ?thesis by (auto simp: rest_of_start)
qed

lemma Unmarshal_accepts_iff:
  "Unmarshal data = Inr v \<longleftrightarrow> (\<exists>bs rest. data = bs @ rest \<and> decodes bs v)"
  using Unmarshal_Inr_decodes Unmarshal_decodes by blast

section \<open>The claims\<close>

text \<open>
  Claim C1. For a dictionary whose values are all of the four kinds, \<^verbatim>\<open>Marshal\<close> writes
  the bindings by strictly ascending key, whatever the order in which the map lists
  them: the output is \<^verbatim>\<open>d\<close>, then for each key of a strictly ascending list of exactly
  the dictionary's keys the encoded key and the encoded value, then \<^verbatim>\<open>e\<close>. Two
  dictionaries that are equal up to the order of their bindings, at every level, are
  written as the same bytes.
\<close>

theorem dictionary_keys_ascending:
  assumes "unique_keys (VDict d)" and "unique_keys (VDict d')"
  shows "(supported (VDict d) \<longrightarrow>
           (\<exists>ks. sorted_wrt (<) ks \<and> set ks = set (map fst d) \<and>
              Marshal (VDict d) =
                Inr (''d'' @ concat (map (\<lambda>k. encoding (VStr k) @ encoding (dict_index d k)) ks) @ ''e'')))
       \<and> (val_eq (VDict d) (VDict d') \<longrightarrow> Marshal (VDict d) = Marshal (VDict d'))"
proof (intro conjI impI)
  assume sup: "supported (VDict d)"
  let ?ks = "sort (map fst d)"
  from assms(1) have "sorted_wrt (<) ?ks" by (simp add: sorted_keys)
  moreover have "set ?ks = set (map fst d)" by simp
  moreover from sup have "Marshal (VDict d) =
      Inr (''d'' @ concat (map (\<lambda>k. encoding (VStr k) @ encoding (dict_index d k)) ?ks) @ ''e'')"
    using Marshal_supported[OF sup] encoding_VDict[of d] by simp
  ultimately show "\<exists>ks. sorted_wrt (<) ks \<and> set ks = set (map fst d) \<and>
      Marshal (VDict d) =
        Inr (''d'' @ concat (map (\<lambda>k. encoding (VStr k) @ encoding (dict_index d k)) ks) @ ''e'')"
    by blast
next
  assume "val_eq (VDict d) (VDict d')"
  from Marshal_val_eq[OF this assms] show "Marshal (VDict d) = Marshal (VDict d')" .
qed

text \<open>
  The dictionary built by storing \<^verbatim>\<open>spam\<close> and then \<^verbatim>\<open>cow\<close>, and the one built in the
  opposite order: both are written as \<^verbatim>\<open>d3:cow3:moo4:spam4:eggse\<close>.
\<close>

theorem dictionary_keys_ascending_witness:
  "unique_keys (VDict [(''spam'', VStr ''eggs''), (''cow'', VStr ''moo'')])
   \<and> unique_keys (VDict [(''cow'', VStr ''moo''), (''spam'', VStr ''eggs'')])
   \<and> supported (VDict [(''spam'', VStr ''eggs''), (''cow'', VStr ''moo'')])
   \<and> val_eq (VDict [(''spam'', VStr ''eggs''), (''cow'', VStr ''moo'')])
        (VDict [(''cow'', VStr ''moo''), (''spam'', VStr ''eggs'')])
   \<and> Marshal (VDict [(''spam'', VStr ''eggs''), (''cow'', VStr ''moo'')])
       = Marshal (VDict [(''cow'', VStr ''moo''), (''spam'', VStr ''eggs'')])
   \<and> Marshal (VDict [(''spam'', VStr ''eggs''), (''cow'', VStr ''moo'')])
       = Inr ''d3:cow3:moo4:spam4:eggse''"
proof -
  let ?d = "[(''spam'', VStr ''eggs''), (''cow'', VStr ''moo'')]"
  let ?d' = "[(''cow'', VStr ''moo''), (''spam'', VStr ''eggs'')]"
  have u: "unique_keys (VDict ?d)" and u': "unique_keys (VDict ?d')" by simp_all
  have s: "supported (VDict ?d)" by simp
  have e: "val_eq (VDict ?d) (VDict ?d')" by (auto simp: dict_index_def)
  have m: "Marshal (VDict ?d) = Inr ''d3:cow3:moo4:spam4:eggse''" by code_simp
  from dictionary_keys_ascending[OF u u'] e have "Marshal (VDict ?d) = Marshal (VDict ?d')"
    by blast
  with u u' s e m show ?thesis by blast
qed

text \<open>
  Claim C2. For every value built from the four kinds whose dictionaries have unique keys
  at every level (and whose integers and string lengths fit Go's \<^verbatim>\<open>int\<close>), \<^verbatim>\<open>Marshal\<close>
  succeeds, \<^verbatim>\<open>Unmarshal\<close> of its output succeeds, and the decoded value equals the
  original up to the order of dictionary bindings.
\<close>

theorem decode_encode_roundtrip:
  assumes "well_formed v"
  shows "\<exists>b v'. Marshal v = Inr b \<and> Unmarshal b = Inr v' \<and> val_eq v' v"
proof -
  from assms have s: "supported v" and u: "unique_keys v" and r: "representable v"
    by (simp_all add: well_formed_def)
  from Unmarshal_decodes[OF decodes_encoding[OF s u r], of "[]"]
  have "Unmarshal (encoding v) = Inr (canon v)" by simp
  with Marshal_supported[OF s] val_eq_canon[OF u] show ?thesis by blast
qed

text \<open>A dictionary holding a list and a nested dictionary, with a negative integer and an empty string.\<close>

theorem decode_encode_roundtrip_witness:
  "well_formed (VDict [(''spam'', VList [VInt (- 3), VStr ''eggs'']), (''cow'', VDict [(''b'', VInt 0), (''a'', VStr '''')])])
   \<and> (\<exists>b v'. Marshal (VDict [(''spam'', VList [VInt (- 3), VStr ''eggs'']), (''cow'', VDict [(''b'', VInt 0), (''a'', VStr '''')])]) = Inr b
         \<and> Unmarshal b = Inr v'
         \<and> val_eq v' (VDict [(''spam'', VList [VInt (- 3), VStr ''eggs'']), (''cow'', VDict [(''b'', VInt 0), (''a'', VStr '''')])]))"
proof -
  let ?v = "VDict [(''spam'', VList [VInt (- 3), VStr ''eggs'']), (''cow'', VDict [(''b'', VInt 0), (''a'', VStr '''')])]"
  have h: "well_formed ?v" by (simp add: well_formed_def)
  from decode_encode_roundtrip[OF h] h show ?thesis by blast
qed

text \<open>
  Claim C3. For every canonical byte sequence \<open>b\<close> (valid for the grammar with its
  lexical rules, the keys of every dictionary strictly ascending), standing for the value
  \<open>v\<close>: \<^verbatim>\<open>Unmarshal\<close> returns \<open>v\<close>, and \<^verbatim>\<open>Marshal\<close> of \<open>v\<close> returns exactly \<open>b\<close>.
\<close>

theorem canonical_encode_decode:
  assumes "canonical b v"
  shows "Unmarshal b = Inr v \<and> Marshal v = Inr b"
  using assms by (rule canonical_roundtrip)

lemma canonical_digits_3: "canonical_digits ''3''" and canonical_digits_4: "canonical_digits ''4''"
  by (simp_all add: canonical_digits_def is_digit_def)

lemma canonical_cow: "canonical_string ''3:cow'' ''cow''"
  using canonical_stringI[of "''3''" "''cow''"] canonical_digits_3
  by (simp add: digits_val_def digit_val_def)

lemma canonical_moo: "canonical_string ''3:moo'' ''moo''"
  using canonical_stringI[of "''3''" "''moo''"] canonical_digits_3
  by (simp add: digits_val_def digit_val_def)

lemma canonical_spam: "canonical_string ''4:spam'' ''spam''"
  using canonical_stringI[of "''4''" "''spam''"] canonical_digits_4
  by (simp add: digits_val_def digit_val_def)

lemma canonical_eggs: "canonical_string ''4:eggs'' ''eggs''"
  using canonical_stringI[of "''4''" "''eggs''"] canonical_digits_4
  by (simp add: digits_val_def digit_val_def)

lemma canonical_example:
  "canonical ''d3:cow3:moo4:spam4:eggse'' (VDict [(''cow'', VStr ''moo''), (''spam'', VStr ''eggs'')])"
proof -
  have "canonical_entries (''4:spam'' @ ''4:eggs'' @ []) [(''spam'', VStr ''eggs'')]"
    by (rule can_ent_cons[OF canonical_spam can_str[OF canonical_eggs] can_ent_nil]) simp
  then have "canonical_entries (''3:cow'' @ ''3:moo'' @ ''4:spam'' @ ''4:eggs'' @ [])
      [(''cow'', VStr ''moo''), (''spam'', VStr ''eggs'')]"
    by (rule can_ent_cons[OF canonical_cow can_str[OF canonical_moo]]) simp
  from can_dict[OF this] show ?thesis by simp
qed

text \<open>The canonical bytes \<^verbatim>\<open>d3:cow3:moo4:spam4:eggse\<close>.\<close>

theorem canonical_encode_decode_witness:
  "canonical ''d3:cow3:moo4:spam4:eggse'' (VDict [(''cow'', VStr ''moo''), (''spam'', VStr ''eggs'')])
   \<and> Unmarshal ''d3:cow3:moo4:spam4:eggse'' = Inr (VDict [(''cow'', VStr ''moo''), (''spam'', VStr ''eggs'')])
   \<and> Marshal (VDict [(''cow'', VStr ''moo''), (''spam'', VStr ''eggs'')]) = Inr ''d3:cow3:moo4:spam4:eggse''"
  using canonical_encode_decode[OF canonical_example] canonical_example by simp

subsection \<open>Integers\<close>

lemma Unmarshal_integer:
  assumes "Atoi ds = Some n" "CHR ''e'' \<notin> set ds"
  shows "Unmarshal (''i'' @ ds @ ''e'') = Inr (VInt n)"
  using Unmarshal_decodes[OF dec_int[OF assms], of "[]"] by simp

text \<open>
  Claim C4, as amended. \<^verbatim>\<open>ie\<close> is refused with the error \<^verbatim>\<open>invalid integer value\<close>: an empty
  digit run is rejected. Leading zeros and negative zero are accepted: every non-empty run
  of decimal digits whose value fits 64 bits decodes to that value, and to its negation
  after a minus sign. So \<^verbatim>\<open>i03e\<close> decodes to 3 and \<^verbatim>\<open>i-0e\<close> to 0, and zero has more
  than one representation.
\<close>

theorem integer_numerals_accepted:
  "Unmarshal ''ie'' = Inl (Err InvalidInteger)
   \<and> (ds \<noteq> [] \<and> list_all is_digit ds \<and> digits_val ds < 2 ^ 63 \<longrightarrow>
        Unmarshal (''i'' @ ds @ ''e'') = Inr (VInt (int (digits_val ds)))
        \<and> Unmarshal (''i-'' @ ds @ ''e'') = Inr (VInt (- int (digits_val ds))))"
proof (intro conjI impI)
  show "Unmarshal ''ie'' = Inl (Err InvalidInteger)" by code_simp
next
  assume a: "ds \<noteq> [] \<and> list_all is_digit ds \<and> digits_val ds < 2 ^ 63"
  then have e: "CHR ''e'' \<notin> set ds" by (simp add: list_all_digit_no_special)
  from a have "Atoi ds = Some (int (digits_val ds))" by (simp add: Atoi_digits)
  from Unmarshal_integer[OF this e]
  show "Unmarshal (''i'' @ ds @ ''e'') = Inr (VInt (int (digits_val ds)))" .
  from a have "Atoi (CHR ''-'' # ds) = Some (- int (digits_val ds))" by (simp add: Atoi_minus_digits)
  from Unmarshal_integer[OF this] e
  show "Unmarshal (''i-'' @ ds @ ''e'') = Inr (VInt (- int (digits_val ds)))" by simp
qed

text \<open>The digit run \<^verbatim>\<open>03\<close>.\<close>

theorem integer_numerals_accepted_witness:
  "''03'' \<noteq> [] \<and> list_all is_digit ''03'' \<and> digits_val ''03'' < 2 ^ 63
   \<and> Unmarshal ''ie'' = Inl (Err InvalidInteger)
   \<and> Unmarshal ''i03e'' = Inr (VInt 3)
   \<and> Unmarshal ''i-03e'' = Inr (VInt (- 3))"
proof -
  have h: "''03'' \<noteq> [] \<and> list_all is_digit ''03'' \<and> digits_val ''03'' < 2 ^ 63"
    by (simp add: is_digit_def digits_val_def digit_val_def)
  have v: "digits_val ''03'' = 3" by (simp add: digits_val_def digit_val_def)
  from integer_numerals_accepted[of "''03''"] h v show ?thesis by simp
qed

text \<open>
  Claim C4 as stated fails: \<^verbatim>\<open>i03e\<close> and \<^verbatim>\<open>i-0e\<close> are decoded, to 3 and to 0.
\<close>

theorem leading_zero_counterexample:
  "Unmarshal ''i03e'' = Inr (VInt 3) \<and> Unmarshal ''i-0e'' = Inr (VInt 0)"
  by code_simp

subsection \<open>Lengths\<close>

text \<open>
  Claim C5. The claim is that \<^verbatim>\<open>Unmarshal\<close> returns a value or an error for every input
  and never crashes, in particular for \<^verbatim>\<open>-1:x\<close>. \<^verbatim>\<open>Atoi\<close> accepts the length \<^verbatim>\<open>-1\<close>,
  and \<^verbatim>\<open>make([]byte, -1)\<close> panics: on this input \<^verbatim>\<open>Unmarshal\<close> does not return.
\<close>

theorem negative_length_panics:
  "Unmarshal ''-1:x'' = Inl Panic"
  by code_simp

subsection \<open>Unsupported values\<close>

text \<open>
  Claim C8. The claim is that \<^verbatim>\<open>Marshal\<close> returns the unsupported-type error wherever
  the unsupported component occurs. It does so at the top level only: inside a list or a
  dictionary, \<^verbatim>\<open>marshalList\<close> and \<^verbatim>\<open>marshalDict\<close> stop writing and drop the error,
  and \<^verbatim>\<open>Marshal\<close> returns the bytes written so far, without the closing \<^verbatim>\<open>e\<close>, and no
  error.
\<close>

theorem nested_unsupported_not_reported:
  "Marshal (VList [VOther]) = Inr ''l''
   \<and> Marshal (VDict [(''a'', VOther)]) = Inr ''d1:a''
   \<and> Marshal VOther = Inl (Err UnsupportedType)"
  by code_simp

subsection \<open>Truncated input\<close>


text \<open>Small inputs, used as examples below.\<close>

lemma Atoi_1: "Atoi ''1'' = Some 1" and Atoi_2: "Atoi ''2'' = Some 2"
  and Atoi_3: "Atoi ''3'' = Some 3" and Atoi_4: "Atoi ''4'' = Some 4"
  by (simp_all add: Atoi_def is_digit_def digits_val_def digit_val_def)


lemma token_a: "string_token ''1:a'' ''a''"
  using string_tokenI[of "''1''" "''a''"] Atoi_1 by simp



lemma decodes_entries_aa: "decodes_entries ''1:ai1e1:ai2e'' [(''a'', VInt 1), (''a'', VInt 2)]"
proof -
  have "decodes_entries ''1:ai2e'' [(''a'', VInt 2)]"
    using ent_cons[OF token_a dec_int[of "''2''" 2] ent_nil] Atoi_2 by simp
  from ent_cons[OF token_a _ this, of "''i1e''" "VInt 1"] dec_int[of "''1''" 1] Atoi_1
  show ?thesis by simp
qed


subsection \<open>Nesting\<close>



subsection \<open>Repeated keys\<close>

text \<open>
  Claim C9. For an encoded dictionary, whether or not a key repeats, \<^verbatim>\<open>Unmarshal\<close>
  succeeds; the dictionary it returns holds each key once, and under a key \<open>k\<close> the value
  of the last binding of \<open>k\<close> in the input (the binding \<open>(k, v)\<close> with no \<open>k\<close> after it).
\<close>

theorem duplicate_key_last_wins:
  assumes "decodes_entries bs (pre @ (k, v) # post)" and "k \<notin> fst ` set post"
  shows "\<exists>d. Unmarshal (''d'' @ bs @ ''e'' @ rest) = Inr (VDict d)
           \<and> dict_index d k = v \<and> distinct (map fst d)"
proof -
  let ?d = "store [] (pre @ (k, v) # post)"
  from Unmarshal_decodes[OF dec_dict[OF assms(1)], of rest]
  have "Unmarshal (''d'' @ bs @ ''e'' @ rest) = Inr (VDict ?d)" by simp
  moreover from store_last[OF assms(2)] have "dict_index ?d k = v" .
  moreover have "distinct (map fst ?d)" by (rule distinct_store) simp
  ultimately show ?thesis by blast
qed

text \<open>The input \<^verbatim>\<open>d1:ai1e1:ai2ee\<close>, where the key \<^verbatim>\<open>a\<close> comes twice.\<close>

theorem duplicate_key_last_wins_witness:
  "decodes_entries ''1:ai1e1:ai2e'' ([(''a'', VInt 1)] @ (''a'', VInt 2) # [])
   \<and> ''a'' \<notin> fst ` set ([] :: (string \<times> val) list)
   \<and> (\<exists>d. Unmarshal (''d'' @ ''1:ai1e1:ai2e'' @ ''e'' @ []) = Inr (VDict d)
           \<and> dict_index d ''a'' = VInt 2 \<and> distinct (map fst d))
   \<and> Unmarshal ''d1:ai1e1:ai2ee'' = Inr (VDict [(''a'', VInt 2)])"
proof -
  have h1: "decodes_entries ''1:ai1e1:ai2e'' ([(''a'', VInt 1)] @ (''a'', VInt 2) # [])"
    using decodes_entries_aa by simp
  have h2: "''a'' \<notin> fst ` set ([] :: (string \<times> val) list)" by simp
  have u: "Unmarshal ''d1:ai1e1:ai2ee'' = Inr (VDict [(''a'', VInt 2)])" by code_simp
  from duplicate_key_last_wins[OF h1 h2, of "[]"] h1 h2 u show ?thesis by blast
qed

subsection \<open>Trailing bytes\<close>

text \<open>
  Claim C10. When the input begins with one complete encoded value, \<^verbatim>\<open>Unmarshal\<close>
  returns that value and no error, whatever bytes follow; so bytes appended to an input
  that is decoded do not change the result. The result is the value alone, with no count
  of the bytes read.
\<close>

theorem trailing_bytes_ignored:
  "(decodes bs v \<longrightarrow> Unmarshal (bs @ rest) = Inr v)
   \<and> (Unmarshal data = Inr w \<longrightarrow> Unmarshal (data @ rest) = Inr w)"
proof (intro conjI impI)
  assume "decodes bs v"
  then show "Unmarshal (bs @ rest) = Inr v" by (rule Unmarshal_decodes)
next
  assume "Unmarshal data = Inr w"
  from Unmarshal_Inr_decodes[OF this] obtain p q where "data = p @ q" "decodes p w" by blast
  with Unmarshal_decodes[of p w "q @ rest"] show "Unmarshal (data @ rest) = Inr w" by simp
qed

text \<open>The value \<^verbatim>\<open>i3e\<close> followed by \<^verbatim>\<open>4:spam\<close>.\<close>

theorem trailing_bytes_ignored_witness:
  "decodes ''i3e'' (VInt 3) \<and> Unmarshal ''i3e'' = Inr (VInt 3)
   \<and> Unmarshal (''i3e'' @ ''4:spam'') = Inr (VInt 3)"
proof -
  have h: "decodes ''i3e'' (VInt 3)" using dec_int[of "''3''" 3] Atoi_3 by simp
  have u: "Unmarshal ''i3e'' = Inr (VInt 3)" by code_simp
  from trailing_bytes_ignored[where bs = "''i3e''" and v = "VInt 3" and rest = "''4:spam''"
      and data = "''i3e''" and w = "VInt 3"] h u
  show ?thesis by simp
qed

end
